theory Spec2Isabelle
  imports Complex_Main "HOL-Library.Product_Lexorder"
begin

section \<open>Persisted tab-separated files\<close>

text \<open>
  Every persisted file of the pipeline is a sequence of tab-separated lines. A line is
  modelled by its fields after \<^verbatim>\<open>line.strip().split('\t')\<close>, each field by the outcome of
  \<^verbatim>\<open>int(field)\<close>: \<open>Some k\<close> when it parses, \<open>None\<close> when Python raises ValueError. A blank
  line is the empty list of fields. A file that does not exist is \<open>None\<close>.
\<close>

type_synonym line = "int option list"

type_synonym tsv_file = "line list option"

text \<open>
  The reader shared by the loaders of pair files: a line counts when it has at least two
  fields and both of the first two parse; every other line is skipped.
\<close>

fun parse_pair :: "line \<Rightarrow> (int \<times> int) option" where
  "parse_pair (Some a # Some b # rest) = Some (a, b)"
| "parse_pair other = None"

definition pair_line :: "int \<times> int \<Rightarrow> line" where
  "pair_line p = [Some (fst p), Some (snd p)]"

section \<open>SupPairsMerger: \<^verbatim>\<open>add_to_sup_pairs\<close> (multi_scale_fusion.py)\<close>

record sup_store =
  sup_pairs_file :: tsv_file
  backup_file :: tsv_file

text \<open>Lines 489-509: the existing pairs, as the set the loop builds.\<close>

definition load_sup_pairs :: "tsv_file \<Rightarrow> (int \<times> int) set" where
  "load_sup_pairs f = (case f of None \<Rightarrow> {} | Some ls \<Rightarrow> set (List.map_filter parse_pair ls))"

text \<open>
  Lines 511-524: the filter loop. The three tests read the sets loaded from the file;
  the loop never adds an accepted id to \<open>kg1_ids\<close> or \<open>kg2_ids\<close>.
\<close>

definition eligible :: "(int \<times> int) set \<Rightarrow> int \<times> int \<Rightarrow> bool" where
  "eligible sup_pairs p =
     (let kg1_ids = fst ` sup_pairs; kg2_ids = snd ` sup_pairs
      in \<not> (fst p \<in> kg1_ids) \<and> \<not> (snd p \<in> kg2_ids) \<and> \<not> (p \<in> sup_pairs))"

definition new_pairs :: "(int \<times> int) set \<Rightarrow> (int \<times> int) list \<Rightarrow> (int \<times> int) list" where
  "new_pairs sup_pairs aligned_pairs = filter (eligible sup_pairs) aligned_pairs"

text \<open>
  The whole operation: the returned count and the store afterwards. The backup is written
  only when the primary file exists, and only on the path that rewrites it.
\<close>

definition add_to_sup_pairs :: "sup_store \<Rightarrow> (int \<times> int) list \<Rightarrow> nat \<times> sup_store" where
  "add_to_sup_pairs st aligned_pairs =
     (if aligned_pairs = [] then (0, st)
      else
        let sup_pairs = load_sup_pairs (sup_pairs_file st);
            new = new_pairs sup_pairs aligned_pairs
        in if new = [] then (0, st)
           else
             let all_pairs = sup_pairs \<union> set new;
                 sorted_pairs = sorted_list_of_set all_pairs;
                 st1 = (case sup_pairs_file st of
                          None \<Rightarrow> st
                        | Some ls \<Rightarrow> st\<lparr>backup_file := Some ls\<rparr>)
             in (length new, st1\<lparr>sup_pairs_file := Some (map pair_line sorted_pairs)\<rparr>))"

text \<open>The one-to-one property of a supervision set.\<close>

definition one_to_one :: "(int \<times> int) set \<Rightarrow> bool" where
  "one_to_one s = (inj_on fst s \<and> inj_on snd s)"

text \<open>A sequence of merges, each with its own candidate list.\<close>

fun merge_all :: "sup_store \<Rightarrow> (int \<times> int) list list \<Rightarrow> sup_store" where
  "merge_all st [] = st"
| "merge_all st (batch # batches) = merge_all (snd (add_to_sup_pairs st batch)) batches"

section \<open>ConflictAnalyzer (intra_scale_interaction.py)\<close>

datatype scale = L1 | L2 | L3

text \<open>The dictionary \<^verbatim>\<open>candidate_info\<close>; a missing key reads as the empty list.\<close>

type_synonym candidate_info = "scale \<rightharpoonup> int list"

definition get_candidates :: "candidate_info \<Rightarrow> scale \<Rightarrow> int list" where
  "get_candidates ci s = (case ci s of None \<Rightarrow> [] | Some cs \<Rightarrow> cs)"

record scale_analysis =
  candidate_count :: nat
  candidates :: "int list"
  top_candidate :: "int option"
  confidence_signal :: string

definition confidence_of :: "int list \<Rightarrow> string" where
  "confidence_of cands =
     (if length cands = 1 then ''strong''
      else if length cands \<le> 3 then ''medium''
      else ''weak'')"

definition analyze_intra_scale_interaction :: "candidate_info \<Rightarrow> scale \<Rightarrow> scale_analysis" where
  "analyze_intra_scale_interaction ci s =
     (let cands = get_candidates ci s
      in \<lparr>candidate_count = length cands,
          candidates = cands,
          top_candidate = (case cands of [] \<Rightarrow> None | c # rest \<Rightarrow> Some c),
          confidence_signal = confidence_of cands\<rparr>)"

text \<open>
  \<^verbatim>\<open>detect_cross_scale_conflicts\<close>. The dictionary \<^verbatim>\<open>top_candidates\<close> is filled in the
  fixed order L1, L2, L3 and keeps that order, so it is an association list here.
\<close>

definition top_candidates :: "candidate_info \<Rightarrow> (scale \<times> int) list" where
  "top_candidates ci =
     concat (map (\<lambda>s. case get_candidates ci s of [] \<Rightarrow> [] | c # rest \<Rightarrow> [(s, c)]) [L1, L2, L3])"

text \<open>
  \<^verbatim>\<open>candidate_counts[kg2_id] += 1\<close> on a \<^verbatim>\<open>defaultdict(int)\<close>: a key seen before keeps its
  place and its count grows by one, a new key is appended with count one.
\<close>

fun count_add :: "(int \<times> nat) list \<Rightarrow> int \<Rightarrow> (int \<times> nat) list" where
  "count_add [] k = [(k, 1)]"
| "count_add ((k', n) # rest) k =
     (if k' = k then (k', n + 1) # rest else (k', n) # count_add rest k)"

definition candidate_counts :: "int list \<Rightarrow> (int \<times> nat) list" where
  "candidate_counts top_values = foldl count_add [] top_values"

text \<open>
  Python's \<^verbatim>\<open>max(items, key=lambda x: x[1])\<close>: the running maximum is replaced only by an
  item whose key is strictly greater, so the first maximal item is returned.
\<close>

fun max_by_count :: "(int \<times> nat) \<Rightarrow> (int \<times> nat) list \<Rightarrow> (int \<times> nat)" where
  "max_by_count best [] = best"
| "max_by_count best (x # xs) = max_by_count (if snd best < snd x then x else best) xs"

definition majority :: "(int \<times> nat) list \<Rightarrow> int option" where
  "majority counts = (case counts of [] \<Rightarrow> None | x # xs \<Rightarrow> Some (fst (max_by_count x xs)))"

text \<open>
  The report. The rendered message \<^verbatim>\<open>conflict_details\<close> is left out: it is a formatted
  string of the other fields.
\<close>

record conflict_report =
  has_conflict :: bool
  conflict_type :: string
  conflicting_scales :: "scale list"
  report_top_candidates :: "(scale \<times> int) list"
  consensus_candidate :: "int option"

definition detect_cross_scale_conflicts :: "candidate_info \<Rightarrow> conflict_report" where
  "detect_cross_scale_conflicts ci =
     (let tops = top_candidates ci in
      if length tops \<le> 1 then
        \<lparr>has_conflict = False, conflict_type = ''none'', conflicting_scales = [],
         report_top_candidates = tops,
         consensus_candidate = (case map snd tops of [] \<Rightarrow> None | v # rest \<Rightarrow> Some v)\<rparr>
      else
        let top_values = map snd tops; unique_tops = set top_values in
        if card unique_tops = 1 then
          \<lparr>has_conflict = False, conflict_type = ''none'', conflicting_scales = [],
           report_top_candidates = tops,
           consensus_candidate = (case top_values of [] \<Rightarrow> None | v # rest \<Rightarrow> Some v)\<rparr>
        else
          let consensus = majority (candidate_counts top_values);
              conflicting = map fst (filter (\<lambda>(s, kg2_id). Some kg2_id \<noteq> consensus) tops)
          in \<lparr>has_conflict = True, conflict_type = ''cross_scale'',
              conflicting_scales = conflicting,
              report_top_candidates = tops,
              consensus_candidate = consensus\<rparr>)"

section \<open>HypergraphDecomposer (hypergraph_decomposition.py)\<close>

text \<open>
  \<^verbatim>\<open>_get_common_time_intervals\<close>, lines 204-215: the loop over the sorted common time
  points, with the list of finished intervals and the bounds of the running one.
\<close>

fun interval_loop :: "(int \<times> int) list \<Rightarrow> int \<Rightarrow> int \<Rightarrow> int list \<Rightarrow> (int \<times> int) list" where
  "interval_loop intervals start stop [] = intervals @ [(start, stop)]"
| "interval_loop intervals start stop (time_id # rest) =
     (if time_id = stop + 1 then interval_loop intervals start time_id rest
      else interval_loop (intervals @ [(start, stop)]) time_id time_id rest)"

definition common_time_intervals :: "int set \<Rightarrow> int set \<Rightarrow> (int \<times> int) list" where
  "common_time_intervals times1 times2 =
     (let common_times = times1 \<inter> times2 in
      if common_times = {} then []
      else (case sorted_list_of_set common_times of
              [] \<Rightarrow> []
            | t # sorted_rest \<Rightarrow> interval_loop [] t t sorted_rest))"

text \<open>\<^verbatim>\<open>d.get(k, set())\<close> on a dictionary of sets.\<close>

definition get_set :: "('k \<rightharpoonup> 'v set) \<Rightarrow> 'k \<Rightarrow> 'v set" where
  "get_set d k = (case d k of None \<Rightarrow> {} | Some s \<Rightarrow> s)"

definition get_common_time_intervals ::
  "(int \<rightharpoonup> int set) \<Rightarrow> (int \<rightharpoonup> int set) \<Rightarrow> int \<Rightarrow> int \<Rightarrow> (int \<times> int) list" where
  "get_common_time_intervals kg1_entity_times kg2_entity_times kg1_id kg2_id =
     common_time_intervals (get_set kg1_entity_times kg1_id) (get_set kg2_entity_times kg2_id)"

text \<open>Two intervals in list order are apart: a gap of at least one integer lies between.\<close>

definition apart :: "int \<times> int \<Rightarrow> int \<times> int \<Rightarrow> bool" where
  "apart p q = (snd p + 1 < fst q)"

definition covered :: "(int \<times> int) list \<Rightarrow> int set" where
  "covered ivs = (\<Union>p \<in> set ivs. {fst p .. snd p})"

text \<open>
  The fields of a \<^verbatim>\<open>HypergraphDecomposition\<close> object that \<^verbatim>\<open>decompose\<close> reads
  (filled by \<^verbatim>\<open>load_data\<close>, never written afterwards) and those it writes.
\<close>

record kg_data =
  entity_pairs :: "(int \<times> int) list"
  kg1_entity_times :: "int \<rightharpoonup> int set"
  kg2_entity_times :: "int \<rightharpoonup> int set"
  kg1_entity_relations :: "int \<rightharpoonup> (int \<times> int) set"
  kg2_entity_relations :: "int \<rightharpoonup> (int \<times> int) set"
  relation_alignment :: "int \<rightharpoonup> int set"

record aspect_state =
  temporal_aspects :: "int \<rightharpoonup> (int \<times> (int \<times> int) list)"
  relational_aspects :: "int \<rightharpoonup> (int \<times> (int \<times> int) set)"
  aspect_to_original :: "int \<rightharpoonup> int"
  temporal_aspect_counter :: int
  relational_aspect_counter :: int

text \<open>\<^verbatim>\<open>__init__\<close>, lines 59-66.\<close>

definition init_aspect_state :: aspect_state where
  "init_aspect_state =
     \<lparr>temporal_aspects = Map.empty, relational_aspects = Map.empty,
      aspect_to_original = Map.empty,
      temporal_aspect_counter = 1000000, relational_aspect_counter = 2000000\<rparr>"

text \<open>\<^verbatim>\<open>_get_common_relations\<close>, lines 270-294.\<close>

definition get_common_relations :: "kg_data \<Rightarrow> int \<Rightarrow> int \<Rightarrow> (int \<times> int) set" where
  "get_common_relations d kg1_id kg2_id =
     (let kg1_rels = get_set (kg1_entity_relations d) kg1_id;
          kg2_rels = get_set (kg2_entity_relations d) kg2_id
      in if relation_alignment d = Map.empty then {}
         else
           let kg1_rel_ids = fst ` kg1_rels;
               kg2_aligned_rel_ids =
                 (\<Union>kg1_rel_id \<in> kg1_rel_ids. get_set (relation_alignment d) kg1_rel_id)
           in {rt \<in> kg2_rels. fst rt \<in> kg2_aligned_rel_ids})"

text \<open>
  \<^verbatim>\<open>decompose\<close>, lines 315-336: the body of the loop for one entity pair. The two local
  lists \<^verbatim>\<open>temporal_aspects\<close> and \<^verbatim>\<open>relational_aspects\<close> of (kg1 id, aspect id) pairs are
  carried beside the object's state.
\<close>

type_synonym decompose_acc = "aspect_state \<times> (int \<times> int) list \<times> (int \<times> int) list"

definition temporal_projection :: "kg_data \<Rightarrow> decompose_acc \<Rightarrow> int \<times> int \<Rightarrow> decompose_acc" where
  "temporal_projection d acc pr =
     (case acc of (self, temporal_out, relational_out) \<Rightarrow>
        let common_intervals =
              get_common_time_intervals (kg1_entity_times d) (kg2_entity_times d) (fst pr) (snd pr)
        in if common_intervals \<noteq> [] then
             let aspect_id = temporal_aspect_counter self
             in (self\<lparr>temporal_aspect_counter := aspect_id + 1,
                      temporal_aspects := (temporal_aspects self)(aspect_id \<mapsto> (snd pr, common_intervals)),
                      aspect_to_original := (aspect_to_original self)(aspect_id \<mapsto> snd pr)\<rparr>,
                 temporal_out @ [(fst pr, aspect_id)], relational_out)
           else acc)"

definition relational_projection :: "kg_data \<Rightarrow> decompose_acc \<Rightarrow> int \<times> int \<Rightarrow> decompose_acc" where
  "relational_projection d acc pr =
     (case acc of (self, temporal_out, relational_out) \<Rightarrow>
        let common_rels = get_common_relations d (fst pr) (snd pr)
        in if common_rels \<noteq> {} then
             let aspect_id = relational_aspect_counter self
             in (self\<lparr>relational_aspect_counter := aspect_id + 1,
                      relational_aspects := (relational_aspects self)(aspect_id \<mapsto> (snd pr, common_rels)),
                      aspect_to_original := (aspect_to_original self)(aspect_id \<mapsto> snd pr)\<rparr>,
                 temporal_out, relational_out @ [(fst pr, aspect_id)])
           else acc)"

definition decompose_pair :: "kg_data \<Rightarrow> decompose_acc \<Rightarrow> int \<times> int \<Rightarrow> decompose_acc" where
  "decompose_pair d acc pr = relational_projection d (temporal_projection d acc pr) pr"

definition decompose :: "kg_data \<Rightarrow> aspect_state \<Rightarrow> decompose_acc" where
  "decompose d self = foldl (decompose_pair d) (self, [], []) (entity_pairs d)"

text \<open>The aspect ids a run hands out, per kind, in allocation order.\<close>

definition temporal_ids :: "decompose_acc \<Rightarrow> int list" where
  "temporal_ids acc = map snd (fst (snd acc))"

definition relational_ids :: "decompose_acc \<Rightarrow> int list" where
  "relational_ids acc = map snd (snd (snd acc))"

definition aspect_mapping :: "decompose_acc \<Rightarrow> (int \<rightharpoonup> int)" where
  "aspect_mapping acc = aspect_to_original (fst acc)"

text \<open>
  The state of the counters and of the mapping after some pairs of a run that started
  from \<open>init_aspect_state\<close>: each counter is its start value plus the number of ids
  handed out, the ids handed out are the consecutive integers from the start value, and
  the mapping has an entry for exactly the ids handed out.
\<close>

definition alloc_inv :: "decompose_acc \<Rightarrow> bool" where
  "alloc_inv acc =
     (temporal_aspect_counter (fst acc) = 1000000 + int (length (temporal_ids acc))
      \<and> relational_aspect_counter (fst acc) = 2000000 + int (length (relational_ids acc))
      \<and> temporal_ids acc = map (\<lambda>i. 1000000 + int i) [0 ..< length (temporal_ids acc)]
      \<and> relational_ids acc = map (\<lambda>i. 2000000 + int i) [0 ..< length (relational_ids acc)]
      \<and> dom (aspect_mapping acc) = set (temporal_ids acc) \<union> set (relational_ids acc))"

text \<open>Concrete inputs of a decomposition run, used to evaluate it.\<close>

definition frontier_two_pairs :: kg_data where
  "frontier_two_pairs =
     \<lparr>entity_pairs = [(1, 10), (2, 20)],
      kg1_entity_times = [1 \<mapsto> {3, 4, 5}], kg2_entity_times = [10 \<mapsto> {4, 5, 9}],
      kg1_entity_relations = [2 \<mapsto> {(7, 1)}], kg2_entity_relations = [20 \<mapsto> {(8, 10)}],
      relation_alignment = [7 \<mapsto> {8}]\<rparr>"

definition frontier_large_kg2_id :: kg_data where
  "frontier_large_kg2_id =
     \<lparr>entity_pairs = [(1, 1000000)],
      kg1_entity_times = [1 \<mapsto> {0}], kg2_entity_times = [1000000 \<mapsto> {0}],
      kg1_entity_relations = Map.empty, kg2_entity_relations = Map.empty,
      relation_alignment = Map.empty\<rparr>"

definition frontier_many_pairs :: kg_data where
  "frontier_many_pairs =
     \<lparr>entity_pairs = replicate 1000001 (1, 2),
      kg1_entity_times = [1 \<mapsto> {0}], kg2_entity_times = [2 \<mapsto> {0}],
      kg1_entity_relations = [1 \<mapsto> {(5, 3)}], kg2_entity_relations = [2 \<mapsto> {(6, 4)}],
      relation_alignment = [5 \<mapsto> {6}]\<rparr>"

section \<open>FusionDecisionBroker: the answer parse of \<^verbatim>\<open>fusion_task\<close> (multi_scale_fusion.py)\<close>

text \<open>
  Strings are ASCII here. \<^verbatim>\<open>str.lower()\<close> maps each of A-Z to its lower-case letter
  and leaves every other character as it is.
\<close>

definition lower_char :: "char \<Rightarrow> char" where
  "lower_char c =
     (case map_of (zip ''ABCDEFGHIJKLMNOPQRSTUVWXYZ'' ''abcdefghijklmnopqrstuvwxyz'') c of
        None \<Rightarrow> c
      | Some l \<Rightarrow> l)"

definition lower :: "string \<Rightarrow> string" where
  "lower s = map lower_char s"











section \<open>IterationController (HyDRA_main.py)\<close>

text \<open>
  The frontier file \<^verbatim>\<open>message_pool/integration_top_pair.txt\<close> as the controller sees it:
  missing, present but failing to be read (with its size in bytes), or its lines.
\<close>

datatype frontier = Missing | Unreadable nat | Content "line list"

text \<open>\<^verbatim>\<open>check_s4_output\<close>: the file exists and is not empty.\<close>

definition check_s4_output :: "frontier \<Rightarrow> bool" where
  "check_s4_output fr =
     (case fr of Missing \<Rightarrow> False | Unreadable n_bytes \<Rightarrow> 0 < n_bytes | Content ls \<Rightarrow> ls \<noteq> [])"

text \<open>
  \<^verbatim>\<open>count_unique_kg1_entities\<close>: a line counts when it has at least two fields and the
  first parses; a missing file and a read error both give 0.
\<close>

fun parse_kg1 :: "line \<Rightarrow> int option" where
  "parse_kg1 (Some a # b # rest) = Some a"
| "parse_kg1 other = None"

definition count_unique_kg1_entities :: "frontier \<Rightarrow> nat" where
  "count_unique_kg1_entities fr =
     (case fr of
        Missing \<Rightarrow> 0
      | Unreadable n_bytes \<Rightarrow> 0
      | Content ls \<Rightarrow> card (set (List.map_filter parse_kg1 ls)))"

text \<open>
  The stages the controller calls are outside it: the embedding trainer, the retrieval
  pipeline and the fusion pass. Each takes the data directory, here a state of type
  \<open>'w\<close>, and gives its success flag and the directory afterwards.
\<close>

record 'w stages =
  read_frontier :: "'w \<Rightarrow> frontier"
  run_s4_training :: "'w \<Rightarrow> bool \<times> 'w"
  run_s4_to_retrieval :: "'w \<Rightarrow> int \<Rightarrow> bool \<times> 'w"
  run_multi_scale_fusion :: "'w \<Rightarrow> bool \<times> 'w"

text \<open>What the controller did, in order, each with its iteration number.\<close>

datatype event =
    S4_Training int
  | Count_Check int nat
  | S4_To_Retrieval int
  | Fusion int

fun event_iteration :: "event \<Rightarrow> int" where
  "event_iteration (S4_Training i) = i"
| "event_iteration (Count_Check i n) = i"
| "event_iteration (S4_To_Retrieval i) = i"
| "event_iteration (Fusion i) = i"

record 'w run_state =
  iteration :: int
  world :: "'w"
  all_success_steps :: "string list"
  calls :: "event list"

text \<open>
  Step 1 of an iteration, lines 292-315: the flag says whether the run goes on (it is
  False where the code returns False), with the directory, the \<^verbatim>\<open>success_steps\<close> of
  the iteration so far and the stages called.
\<close>

definition s4_step ::
  "'w stages \<Rightarrow> bool \<Rightarrow> int \<Rightarrow> 'w \<Rightarrow> bool \<times> 'w \<times> string list \<times> event list" where
  "s4_step env skip_s4 it w =
     (if \<not> skip_s4 then
        (if check_s4_output (read_frontier env w) \<and> 1 < it then (True, w, [''S4 (already exists)''], [])
         else
           (case run_s4_training env w of (ok, w') \<Rightarrow>
              if ok then (True, w', [''S4 Training''], [S4_Training it])
              else if it = 1 then (False, w', [], [S4_Training it])
              else (True, w', [], [S4_Training it])))
      else
        (if \<not> check_s4_output (read_frontier env w) then
           (if it = 1 then (False, w, [], []) else (True, w, [], []))
         else (True, w, [''S4 (skipped)''], [])))"

text \<open>
  The body of the \<^verbatim>\<open>while\<close> loop, lines 285-356, for a state that passed the loop test.
  \<open>Return\<close> leaves the loop: with False where the code returns False, with True where it
  breaks (the summary follows and the function returns True). \<open>Next\<close> goes back to the
  loop test, at a \<^verbatim>\<open>continue\<close> or at the end of the body.
\<close>

datatype 'w outcome = Return bool "'w run_state" | Next "'w run_state"

definition run_iteration ::
  "'w stages \<Rightarrow> bool \<Rightarrow> int \<Rightarrow> int \<Rightarrow> 'w run_state \<Rightarrow> 'w outcome" where
  "run_iteration env skip_s4 max_iterations min_kg1_entities st =
     (let it = iteration st + 1 in
      case s4_step env skip_s4 it (world st) of (go_on, w1, success1, called1) \<Rightarrow>
        let calls1 = calls st @ called1 in
        if \<not> go_on then Return False (st\<lparr>iteration := it, world := w1, calls := calls1\<rparr>)
        else
          let kg1_count = count_unique_kg1_entities (read_frontier env w1);
              calls2 = calls1 @ [Count_Check it kg1_count]
          in
          if int kg1_count < min_kg1_entities then
            Return True \<lparr>iteration = it, world = w1,
                         all_success_steps = all_success_steps st @ success1, calls = calls2\<rparr>
          else
            (case run_s4_to_retrieval env w1 it of (ok2, w2) \<Rightarrow>
               let calls3 = calls2 @ [S4_To_Retrieval it];
                   failed2 = \<lparr>iteration = it, world = w2,
                              all_success_steps = all_success_steps st, calls = calls3\<rparr>
               in
               if \<not> ok2 then (if it = 1 then Return False failed2 else Next failed2)
               else
                 (case run_multi_scale_fusion env w2 of (ok3, w3) \<Rightarrow>
                    let calls4 = calls3 @ [Fusion it];
                        failed3 = \<lparr>iteration = it, world = w3,
                                   all_success_steps = all_success_steps st, calls = calls4\<rparr>;
                        done = \<lparr>iteration = it, world = w3,
                                all_success_steps = all_success_steps st @ success1
                                  @ [''S4 to Retrieval'', ''Multi-Scale Fusion''],
                                calls = calls4\<rparr>
                    in
                    if \<not> ok3 then (if it = 1 then Return False failed3 else Next failed3)
                    else if max_iterations \<le> it then Return True done
                    else Next done)))"

lemma run_iteration_Next:
  "run_iteration env skip_s4 max_iterations min_kg1_entities st = Next st' \<Longrightarrow>
     iteration st' = iteration st + 1"
  by (auto simp: run_iteration_def Let_def split: prod.splits if_splits)

text \<open>
  The loop of \<^verbatim>\<open>run_full_pipeline\<close>, lines 284-367, from a loop state: the value
  returned and the state at the return.
\<close>

function pipeline_loop ::
  "'w stages \<Rightarrow> bool \<Rightarrow> int \<Rightarrow> int \<Rightarrow> 'w run_state \<Rightarrow> bool \<times> 'w run_state" where
  "pipeline_loop env skip_s4 max_iterations min_kg1_entities st =
     (if iteration st < max_iterations then
        (case run_iteration env skip_s4 max_iterations min_kg1_entities st of
           Return r st' \<Rightarrow> (r, st')
         | Next st' \<Rightarrow> pipeline_loop env skip_s4 max_iterations min_kg1_entities st')
      else (True, st))"
  by pat_completeness auto
termination
  by (relation "measure (\<lambda>(env, skip_s4, max_iterations, min_kg1_entities, st).
                  nat (max_iterations - iteration st))")
     (auto dest: run_iteration_Next)

declare pipeline_loop.simps [simp del]

text \<open>Lines 281-282: the state at the first loop test.\<close>

definition initial_state :: "'w \<Rightarrow> 'w run_state" where
  "initial_state w = \<lparr>iteration = 0, world = w, all_success_steps = [], calls = []\<rparr>"

definition run_pipeline_loop :: "'w stages \<Rightarrow> bool \<Rightarrow> int \<Rightarrow> int \<Rightarrow> 'w \<Rightarrow> bool \<times> 'w run_state" where
  "run_pipeline_loop env skip_s4 max_iterations min_kg1_entities w =
     pipeline_loop env skip_s4 max_iterations min_kg1_entities (initial_state w)"

text \<open>
  Stand-ins for the three outside stages, to run the controller on: the data directory
  holds a frontier of the KG1 ids 1 to \<open>frontier_size\<close> and the alignments found so far.
  Training and retrieval succeed and change nothing; a fusion pass succeeds, confirms
  the upper part of the frontier and leaves the ids 1 to 80 (from a frontier above 100)
  or 1 to 40 in it.
\<close>

record demo_dir =
  frontier_size :: nat
  supervision :: "(int \<times> int) list"

definition demo_frontier :: "nat \<Rightarrow> frontier" where
  "demo_frontier n = Content (map (\<lambda>k. [Some (int k), Some (int k + 5000)]) [1 ..< Suc n])"

definition demo_fusion :: "demo_dir \<Rightarrow> bool \<times> demo_dir" where
  "demo_fusion w =
     (let keep = (if 100 < frontier_size w then 80 else 40)
      in (True, \<lparr>frontier_size = keep,
                 supervision = supervision w
                   @ map (\<lambda>k. (int k, int k + 5000)) [Suc keep ..< Suc (frontier_size w)]\<rparr>))"

definition demo_stages :: "demo_dir stages" where
  "demo_stages =
     \<lparr>read_frontier = (\<lambda>w. demo_frontier (frontier_size w)),
      run_s4_training = (\<lambda>w. (True, w)),
      run_s4_to_retrieval = (\<lambda>w it. (True, w)),
      run_multi_scale_fusion = demo_fusion\<rparr>"

text \<open>
  Two facts about the stages called so far, kept by every iteration that goes on: no
  event is of a later iteration than the current one, and every count checked so far
  was at or above the threshold. And what is to hold at the return: a count below the
  threshold is the last event, of the last iteration, which called neither retrieval nor
  fusion, and the run returned True.
\<close>

definition calls_inv :: "int \<Rightarrow> 'w run_state \<Rightarrow> bool" where
  "calls_inv min_kg1_entities st =
     ((\<forall>e \<in> set (calls st). event_iteration e \<le> iteration st)
      \<and> (\<forall>i n. Count_Check i n \<in> set (calls st) \<longrightarrow> min_kg1_entities \<le> int n))"

definition stopped_ok :: "int \<Rightarrow> bool \<times> 'w run_state \<Rightarrow> bool" where
  "stopped_ok min_kg1_entities res =
     (\<forall>i n. Count_Check i n \<in> set (calls (snd res)) \<and> int n < min_kg1_entities \<longrightarrow>
        fst res \<and> iteration (snd res) = i
        \<and> S4_To_Retrieval i \<notin> set (calls (snd res)) \<and> Fusion i \<notin> set (calls (snd res))
        \<and> last (calls (snd res)) = Count_Check i n)"

section \<open>RelationAligner (relation_alignment.py)\<close>

subsection \<open>The sequence similarity of the Python standard library\<close>

text \<open>
  \<^verbatim>\<open>text_similarity\<close> calls \<^verbatim>\<open>difflib.SequenceMatcher(None, a, b).ratio()\<close>, which is not
  code of the repository. It is embedded here as the library computes it, with no junk
  predicate (the first argument is None) and the automatic junk heuristic on (the
  default).

  \<^verbatim>\<open>b2j\<close> maps an element of \<open>b\<close> to the ascending list of the positions where it occurs.
  When \<open>b\<close> has 200 elements or more, an element occurring more than
  \<open>len(b) // 100 + 1\<close> times is popular and loses its entry.
\<close>

definition b2j_all :: "'a list \<Rightarrow> 'a \<Rightarrow> nat list" where
  "b2j_all b elt = filter (\<lambda>j. b ! j = elt) [0 ..< length b]"

definition popular :: "'a list \<Rightarrow> 'a \<Rightarrow> bool" where
  "popular b elt = (200 \<le> length b \<and> length b div 100 + 1 < length (b2j_all b elt))"

definition b2j :: "'a list \<Rightarrow> 'a \<Rightarrow> nat list" where
  "b2j b elt = (if popular b elt then [] else b2j_all b elt)"

text \<open>
  \<^verbatim>\<open>find_longest_match\<close>, the loop over the positions \<open>j\<close> of \<open>a[i]\<close> in \<open>b\<close>: a position
  below \<open>blo\<close> is skipped, the first position at or above \<open>bhi\<close> ends the loop; otherwise
  the match ending at \<open>(i, j)\<close> is one longer than the match ending at \<open>(i-1, j-1)\<close>,
  \<^verbatim>\<open>j2len.get(j-1, 0) + 1\<close>, and replaces the best one when strictly longer. The key
  \<open>-1\<close> is never in the dictionary, so \<open>j = 0\<close> reads 0.
\<close>

type_synonym match = "nat \<times> nat \<times> nat"

fun j_loop ::
  "nat \<Rightarrow> nat \<Rightarrow> nat \<Rightarrow> (nat \<rightharpoonup> nat) \<Rightarrow> nat list \<Rightarrow> (nat \<rightharpoonup> nat) \<times> match \<Rightarrow> (nat \<rightharpoonup> nat) \<times> match" where
  "j_loop i blo bhi j2len [] st = st"
| "j_loop i blo bhi j2len (j # js) (newj2len, besti, bestj, bestsize) =
     (if j < blo then j_loop i blo bhi j2len js (newj2len, besti, bestj, bestsize)
      else if bhi \<le> j then (newj2len, besti, bestj, bestsize)
      else
        let k = (if j = 0 then 0 else (case j2len (j - 1) of None \<Rightarrow> 0 | Some v \<Rightarrow> v)) + 1
        in j_loop i blo bhi j2len js
             (newj2len(j \<mapsto> k),
              if bestsize < k then (i + 1 - k, j + 1 - k, k) else (besti, bestj, bestsize)))"

text \<open>The loop over \<open>i\<close> in \<^verbatim>\<open>range(alo, ahi)\<close>, carrying \<open>j2len\<close> and the best match.\<close>

fun i_loop ::
  "'a list \<Rightarrow> 'a list \<Rightarrow> nat \<Rightarrow> nat \<Rightarrow> nat list \<Rightarrow> (nat \<rightharpoonup> nat) \<times> match \<Rightarrow> (nat \<rightharpoonup> nat) \<times> match" where
  "i_loop a b blo bhi [] st = st"
| "i_loop a b blo bhi (i # is) st =
     i_loop a b blo bhi is (j_loop i blo bhi (fst st) (b2j b (a ! i)) (Map.empty, snd st))"

text \<open>
  The two loops that extend the best match by equal elements on each side. The two
  further loops of the library extend it by junk elements only; without a junk
  predicate no element is junk, and they do nothing.
\<close>

function extend_left :: "'a list \<Rightarrow> 'a list \<Rightarrow> nat \<Rightarrow> nat \<Rightarrow> match \<Rightarrow> match" where
  "extend_left a b alo blo (besti, bestj, bestsize) =
     (if alo < besti \<and> blo < bestj \<and> a ! (besti - 1) = b ! (bestj - 1)
      then extend_left a b alo blo (besti - 1, bestj - 1, bestsize + 1)
      else (besti, bestj, bestsize))"
  by pat_completeness auto
termination
  by (relation "measure (\<lambda>(a, b, alo, blo, besti, bestj, bestsize). besti)") auto

function extend_right :: "'a list \<Rightarrow> 'a list \<Rightarrow> nat \<Rightarrow> nat \<Rightarrow> match \<Rightarrow> match" where
  "extend_right a b ahi bhi (besti, bestj, bestsize) =
     (if besti + bestsize < ahi \<and> bestj + bestsize < bhi
         \<and> a ! (besti + bestsize) = b ! (bestj + bestsize)
      then extend_right a b ahi bhi (besti, bestj, bestsize + 1)
      else (besti, bestj, bestsize))"
  by pat_completeness auto
termination
  by (relation "measure (\<lambda>(a, b, ahi, bhi, besti, bestj, bestsize). ahi - (besti + bestsize))") auto

declare extend_left.simps [simp del] extend_right.simps [simp del]

definition find_longest_match :: "'a list \<Rightarrow> 'a list \<Rightarrow> nat \<Rightarrow> nat \<Rightarrow> nat \<Rightarrow> nat \<Rightarrow> match" where
  "find_longest_match a b alo ahi blo bhi =
     extend_right a b ahi bhi
       (extend_left a b alo blo
          (snd (i_loop a b blo bhi [alo ..< ahi] (Map.empty, (alo, blo, 0)))))"

text \<open>
  What the loops keep. \<open>len_ok\<close>: every entry \<open>j \<mapsto> k\<close> of \<open>j2len\<close> before row \<open>i\<close> is a
  match of \<open>k\<close> elements ending at \<open>(i-1, j)\<close> inside the window. \<open>best_ok\<close>: the best
  match starts inside the window, is a match, and either is empty and sits at the
  start of the window or ends inside the window.
\<close>

definition len_ok :: "'a list \<Rightarrow> 'a list \<Rightarrow> nat \<Rightarrow> nat \<Rightarrow> nat \<Rightarrow> (nat \<rightharpoonup> nat) \<Rightarrow> bool" where
  "len_ok a b alo blo i m =
     (\<forall>j k. m j = Some k \<longrightarrow>
        1 \<le> k \<and> alo + k \<le> i \<and> blo + k \<le> j + 1 \<and> (\<forall>t < k. a ! (i - 1 - t) = b ! (j - t)))"

definition best_ok :: "'a list \<Rightarrow> 'a list \<Rightarrow> nat \<Rightarrow> nat \<Rightarrow> nat \<Rightarrow> nat \<Rightarrow> match \<Rightarrow> bool" where
  "best_ok a b alo ahi blo bhi x =
     (case x of (besti, bestj, bestsize) \<Rightarrow>
        alo \<le> besti \<and> blo \<le> bestj
        \<and> (if bestsize = 0 then besti = alo \<and> bestj = blo
            else besti + bestsize \<le> ahi \<and> bestj + bestsize \<le> bhi)
        \<and> (\<forall>t < bestsize. a ! (besti + t) = b ! (bestj + t)))"

text \<open>The match found is a match inside the window; the loop below needs it to end.\<close>

lemma b2j_member: "j \<in> set (b2j b elt) \<Longrightarrow> b ! j = elt"
  by (auto simp: b2j_def b2j_all_def split: if_splits)

lemma j_loop_ok:
  assumes prev: "len_ok a b alo blo i j2len"
    and row: "alo \<le> i" "i < ahi"
    and js: "\<forall>j \<in> set js. b ! j = a ! i"
    and new: "len_ok a b alo blo (i + 1) newj2len"
    and best: "best_ok a b alo ahi blo bhi best"
  shows "len_ok a b alo blo (i + 1) (fst (j_loop i blo bhi j2len js (newj2len, best)))
       \<and> best_ok a b alo ahi blo bhi (snd (j_loop i blo bhi j2len js (newj2len, best)))"
  using js new best
proof (induction js arbitrary: newj2len best)
  case Nil
  then show ?case by simp
next
  case (Cons j js)
  obtain besti bestj bestsize where bst: "best = (besti, bestj, bestsize)"
    by (cases best) auto
  have js': "\<forall>j \<in> set js. b ! j = a ! i" using Cons.prems(1) by simp
  have bj: "b ! j = a ! i" using Cons.prems(1) by simp
  show ?case
  proof (cases "j < blo")
    case True
    then show ?thesis
      using Cons.IH [OF js' Cons.prems(2) Cons.prems(3)] bst by simp
  next
    case lo: False
    show ?thesis
    proof (cases "bhi \<le> j")
      case True
      then show ?thesis using lo Cons.prems bst by simp
    next
      case hi: False
      define k where "k = (if j = 0 then 0 else (case j2len (j - 1) of None \<Rightarrow> 0 | Some v \<Rightarrow> v)) + 1"
      have k1: "1 \<le> k" by (simp add: k_def)
      have kprops: "alo + k \<le> i + 1 \<and> blo + k \<le> j + 1 \<and> (\<forall>t < k. a ! (i - t) = b ! (j - t))"
      proof (cases "j = 0 \<or> j2len (j - 1) = None")
        case True
        then have "k = 1" by (auto simp: k_def)
        then show ?thesis using row lo bj by simp
      next
        case False
        then obtain v where v: "j2len (j - 1) = Some v" and j0: "j \<noteq> 0" by auto
        then have kv: "k = v + 1" by (simp add: k_def)
        from prev v have pv: "1 \<le> v" "alo + v \<le> i" "blo + v \<le> (j - 1) + 1"
          "\<forall>t < v. a ! (i - 1 - t) = b ! (j - 1 - t)"
          by (auto simp: len_ok_def)
        have "a ! (i - t) = b ! (j - t)" if "t < k" for t
        proof (cases t)
          case 0
          then show ?thesis using bj by simp
        next
          case (Suc u)
          then have "u < v" using that kv by simp
          then have "a ! (i - 1 - u) = b ! (j - 1 - u)" using pv(4) by simp
          then show ?thesis using Suc by simp
        qed
        then show ?thesis using pv kv j0 by auto
      qed
      have new': "len_ok a b alo blo (i + 1) (newj2len(j \<mapsto> k))"
        using Cons.prems(2) k1 kprops by (auto simp: len_ok_def)
      have best': "best_ok a b alo ahi blo bhi
          (if bestsize < k then (i + 1 - k, j + 1 - k, k) else (besti, bestj, bestsize))"
      proof (cases "bestsize < k")
        case False
        then show ?thesis using Cons.prems(3) bst by simp
      next
        case True
        have m: "a ! (i + 1 - k + t) = b ! (j + 1 - k + t)" if "t < k" for t
        proof -
          have "k - 1 - t < k" using that by simp
          then have e: "a ! (i - (k - 1 - t)) = b ! (j - (k - 1 - t))" using kprops by blast
          have e1: "i - (k - 1 - t) = i + 1 - k + t" using that kprops by simp
          have e2: "j - (k - 1 - t) = j + 1 - k + t" using that kprops by simp
          show ?thesis using e by (simp only: e1 e2)
        qed
        show ?thesis
          using True k1 kprops row hi m by (auto simp: best_ok_def)
      qed
      have step: "j_loop i blo bhi j2len (j # js) (newj2len, best) =
          j_loop i blo bhi j2len js (newj2len(j \<mapsto> k),
            if bestsize < k then (i + 1 - k, j + 1 - k, k) else (besti, bestj, bestsize))"
        using lo hi bst by (simp add: k_def Let_def)
      show ?thesis
        unfolding step by (rule Cons.IH [OF js' new' best'])
    qed
  qed
qed

lemma len_ok_empty: "len_ok a b alo blo i Map.empty"
  by (simp add: len_ok_def)

lemma i_loop_ok:
  assumes "len_ok a b alo blo i j2len" and "alo \<le> i" and "best_ok a b alo ahi blo bhi best"
  shows "best_ok a b alo ahi blo bhi (snd (i_loop a b blo bhi [i ..< ahi] (j2len, best)))"
  using assms
proof (induction "ahi - i" arbitrary: i j2len best)
  case 0
  then show ?case by simp
next
  case (Suc n)
  then have lt: "i < ahi" by simp
  have up: "[i ..< ahi] = i # [i + 1 ..< ahi]" using lt by (simp add: upt_rec)
  have js: "\<forall>j \<in> set (b2j b (a ! i)). b ! j = a ! i" by (simp add: b2j_member)
  from j_loop_ok [OF Suc.prems(1) Suc.prems(2) lt js len_ok_empty Suc.prems(3)]
  have r: "len_ok a b alo blo (i + 1) (fst (j_loop i blo bhi j2len (b2j b (a ! i)) (Map.empty, best)))"
    and s: "best_ok a b alo ahi blo bhi (snd (j_loop i blo bhi j2len (b2j b (a ! i)) (Map.empty, best)))"
    by simp_all
  have n: "n = ahi - (i + 1)" using Suc.hyps(2) by simp
  have le: "alo \<le> i + 1" using Suc.prems(2) by simp
  from Suc.hyps(1) [OF n r le s] show ?case
    unfolding up by simp
qed

lemma extend_left_ok:
  "best_ok a b alo ahi blo bhi x \<Longrightarrow> best_ok a b alo ahi blo bhi (extend_left a b alo blo x)"
proof (induction a b alo blo x rule: extend_left.induct)
  case (1 a b alo blo besti bestj bestsize)
  show ?case
  proof (cases "alo < besti \<and> blo < bestj \<and> a ! (besti - 1) = b ! (bestj - 1)")
    case False
    have "extend_left a b alo blo (besti, bestj, bestsize) = (besti, bestj, bestsize)"
      by (subst extend_left.simps) (simp only: False if_False)
    then show ?thesis using "1.prems" by simp
  next
    case True
    have m: "a ! (besti - 1 + t) = b ! (bestj - 1 + t)" if "t < bestsize + 1" for t
    proof (cases t)
      case 0
      then show ?thesis using True by simp
    next
      case (Suc u)
      then have "u < bestsize" using that by simp
      then have "a ! (besti + u) = b ! (bestj + u)" using "1.prems" by (simp add: best_ok_def)
      then show ?thesis using Suc True by simp
    qed
    have nb: "best_ok a b alo ahi blo bhi (besti - 1, bestj - 1, bestsize + 1)"
      using True "1.prems" m by (auto simp: best_ok_def split: if_splits)
    have unf: "extend_left a b alo blo (besti, bestj, bestsize)
        = extend_left a b alo blo (besti - 1, bestj - 1, bestsize + 1)"
      using True by (subst extend_left.simps) simp
    show ?thesis unfolding unf by (rule "1.IH" [OF True nb])
  qed
qed

lemma extend_right_ok:
  "best_ok a b alo ahi blo bhi x \<Longrightarrow> best_ok a b alo ahi blo bhi (extend_right a b ahi bhi x)"
proof (induction a b ahi bhi x rule: extend_right.induct)
  case (1 a b ahi bhi besti bestj bestsize)
  show ?case
  proof (cases "besti + bestsize < ahi \<and> bestj + bestsize < bhi
         \<and> a ! (besti + bestsize) = b ! (bestj + bestsize)")
    case False
    have "extend_right a b ahi bhi (besti, bestj, bestsize) = (besti, bestj, bestsize)"
      by (subst extend_right.simps) (simp only: False if_False)
    then show ?thesis using "1.prems" by simp
  next
    case True
    have m: "a ! (besti + t) = b ! (bestj + t)" if "t < bestsize + 1" for t
    proof (cases "t = bestsize")
      case True
      then show ?thesis using \<open>besti + bestsize < ahi \<and> bestj + bestsize < bhi
         \<and> a ! (besti + bestsize) = b ! (bestj + bestsize)\<close> by simp
    next
      case False
      then have "t < bestsize" using that by simp
      then show ?thesis using "1.prems" by (simp add: best_ok_def)
    qed
    have nb: "best_ok a b alo ahi blo bhi (besti, bestj, bestsize + 1)"
      using True "1.prems" m by (auto simp: best_ok_def split: if_splits)
    have unf: "extend_right a b ahi bhi (besti, bestj, bestsize)
        = extend_right a b ahi bhi (besti, bestj, bestsize + 1)"
      using True by (subst extend_right.simps) simp
    show ?thesis unfolding unf by (rule "1.IH" [OF True nb])
  qed
qed

lemma find_longest_match_ok:
  "best_ok a b alo ahi blo bhi (find_longest_match a b alo ahi blo bhi)"
proof -
  have "best_ok a b alo ahi blo bhi (alo, blo, 0)" by (simp add: best_ok_def)
  from i_loop_ok [OF len_ok_empty le_refl this]
  have "best_ok a b alo ahi blo bhi
      (snd (i_loop a b blo bhi [alo ..< ahi] (Map.empty, (alo, blo, 0))))" .
  then show ?thesis
    unfolding find_longest_match_def by (intro extend_right_ok extend_left_ok)
qed

text \<open>
  \<^verbatim>\<open>get_matching_blocks\<close>: the work list of windows still to search, a Python list used
  as a stack (\<^verbatim>\<open>append\<close> and \<^verbatim>\<open>pop\<close> at the end); its top is the head of the list here.
  After a non-empty match the window to its left, then the window to its right are
  pushed, each only when non-empty on both sides.
\<close>

type_synonym window = "nat \<times> nat \<times> nat \<times> nat"

definition pushed :: "window \<Rightarrow> match \<Rightarrow> window list" where
  "pushed w x =
     (case w of (alo, ahi, blo, bhi) \<Rightarrow> case x of (i, j, k) \<Rightarrow>
        (if i + k < ahi \<and> j + k < bhi then [(i + k, ahi, j + k, bhi)] else [])
        @ (if alo < i \<and> blo < j then [(alo, i, blo, j)] else []))"

definition window_weight :: "window \<Rightarrow> nat" where
  "window_weight w = (case w of (alo, ahi, blo, bhi) \<Rightarrow> 2 * (ahi - alo) + 1)"

definition match_size :: "match \<Rightarrow> nat" where
  "match_size x = snd (snd x)"

definition longest_in :: "'a list \<Rightarrow> 'a list \<Rightarrow> window \<Rightarrow> match" where
  "longest_in a b w = (case w of (alo, ahi, blo, bhi) \<Rightarrow> find_longest_match a b alo ahi blo bhi)"

lemma pushed_weight:
  assumes "match_size (longest_in a b w) \<noteq> 0"
  shows "sum_list (map window_weight (pushed w (longest_in a b w))) < window_weight w"
proof -
  obtain alo ahi blo bhi where w: "w = (alo, ahi, blo, bhi)" by (cases w) auto
  obtain i j k where x: "find_longest_match a b alo ahi blo bhi = (i, j, k)"
    by (cases "find_longest_match a b alo ahi blo bhi") auto
  have k: "k \<noteq> 0" using assms w x by (simp add: match_size_def longest_in_def)
  have "best_ok a b alo ahi blo bhi (i, j, k)"
    using find_longest_match_ok [of a b alo ahi blo bhi] x by simp
  then have "alo \<le> i" "i + k \<le> ahi" using k by (auto simp: best_ok_def)
  then show ?thesis
    using k w x by (auto simp: pushed_def window_weight_def longest_in_def)
qed

function blocks_loop :: "'a list \<Rightarrow> 'a list \<Rightarrow> window list \<Rightarrow> match list \<Rightarrow> match list" where
  "blocks_loop a b [] matching_blocks = matching_blocks"
| "blocks_loop a b (w # queue) matching_blocks =
     (if match_size (longest_in a b w) \<noteq> 0
      then blocks_loop a b (pushed w (longest_in a b w) @ queue)
             (matching_blocks @ [longest_in a b w])
      else blocks_loop a b queue matching_blocks)"
  by pat_completeness auto
termination
proof (relation "measure (\<lambda>(a, b, queue, blocks). sum_list (map window_weight queue))")
  show "wf (measure (\<lambda>(a, b, queue, blocks). sum_list (map window_weight queue)))"
    by simp
next
  fix a b :: "'a list" and w :: window and queue :: "window list" and matching_blocks :: "match list"
  assume "match_size (longest_in a b w) \<noteq> 0"
  from pushed_weight [OF this]
  show "((a, b, pushed w (longest_in a b w) @ queue, matching_blocks @ [longest_in a b w]),
         (a, b, w # queue, matching_blocks))
        \<in> measure (\<lambda>(a, b, queue, blocks). sum_list (map window_weight queue))"
    by simp
next
  fix a b :: "'a list" and w :: window and queue :: "window list" and matching_blocks :: "match list"
  have "0 < window_weight w" by (simp add: window_weight_def split: prod.splits)
  then show "((a, b, queue, matching_blocks), (a, b, w # queue, matching_blocks))
        \<in> measure (\<lambda>(a, b, queue, blocks). sum_list (map window_weight queue))"
    by simp
qed

declare blocks_loop.simps(2) [simp del]

text \<open>
  \<^verbatim>\<open>ratio\<close>: twice the number of matched elements over the total length, and 1 for two
  empty sequences. The library sorts the blocks, merges adjacent ones and appends a
  block of size 0 before it sums the sizes; none of that changes the sum. The quotient
  is a Python float; it is a real number here, and so are the scores below: rounding is
  not modelled.
\<close>

definition get_matching_blocks :: "'a list \<Rightarrow> 'a list \<Rightarrow> match list" where
  "get_matching_blocks a b = blocks_loop a b [(0, length a, 0, length b)] []"

definition matches :: "'a list \<Rightarrow> 'a list \<Rightarrow> nat" where
  "matches a b = sum_list (map match_size (get_matching_blocks a b))"

definition calculate_ratio :: "nat \<Rightarrow> nat \<Rightarrow> real" where
  "calculate_ratio m len = (if len \<noteq> 0 then 2 * real m / real len else 1)"

definition sequence_ratio :: "'a list \<Rightarrow> 'a list \<Rightarrow> real" where
  "sequence_ratio a b = calculate_ratio (matches a b) (length a + length b)"

subsection \<open>\<^verbatim>\<open>text_similarity\<close> and the text method of \<^verbatim>\<open>find_relation_alignments\<close>\<close>

text \<open>
  \<^verbatim>\<open>str.split()\<close> without arguments: the maximal runs of characters that are not white
  space. In ASCII the white space is tab, line feed, vertical tab, form feed, carriage
  return, the four separators 28 to 31 and the blank.
\<close>

definition is_space :: "char \<Rightarrow> bool" where
  "is_space c =
     (c \<in> set [CHR 0x09, CHR 0x0A, CHR 0x0B, CHR 0x0C, CHR 0x0D,
               CHR 0x1C, CHR 0x1D, CHR 0x1E, CHR 0x1F, CHR 0x20])"

fun split_from :: "string \<Rightarrow> string \<Rightarrow> string list" where
  "split_from word [] = (if word = [] then [] else [word])"
| "split_from word (c # cs) =
     (if is_space c then (if word = [] then split_from [] cs else word # split_from [] cs)
      else split_from (word @ [c]) cs)"

definition str_split :: "string \<Rightarrow> string list" where
  "str_split s = split_from [] s"

definition stopwords :: "string set" where
  "stopwords = {''a'', ''an'', ''the'', ''of'', ''in'', ''on'', ''at'', ''to'', ''for'',
                ''with'', ''by'', ''or'', ''and''}"

text \<open>Lines 149-155: the words of a lower-cased name that are no stop words.\<close>

definition words_of :: "string \<Rightarrow> string set" where
  "words_of name_lower = set (str_split name_lower) - stopwords"

text \<open>Line 159: the Jaccard similarity of two word sets, 0 when both are empty.\<close>

definition word_overlap :: "string set \<Rightarrow> string set \<Rightarrow> real" where
  "word_overlap words1 words2 =
     (if words1 \<union> words2 \<noteq> {}
      then real (card (words1 \<inter> words2)) / real (card (words1 \<union> words2)) else 0)"

definition text_similarity :: "string \<Rightarrow> string \<Rightarrow> real" where
  "text_similarity name1 name2 =
     (let name1_lower = lower name1; name2_lower = lower name2 in
      if name1_lower = name2_lower then 1
      else
        let similarity = sequence_ratio name1_lower name2_lower;
            words1 = words_of name1_lower;
            words2 = words_of name2_lower
        in if words1 \<noteq> {} \<and> words2 \<noteq> {}
           then 0.6 * similarity + 0.4 * word_overlap words1 words2
           else similarity)"

text \<open>
  \<^verbatim>\<open>find_relation_alignments\<close>. A relation dictionary is the list of its items in
  iteration order. An alignment is (KG1 relation id, KG2 relation id, score, method).
\<close>

datatype align_method = Text_Similarity | Cooccurrence

type_synonym alignment = "int \<times> int \<times> real \<times> align_method"

definition score :: "alignment \<Rightarrow> real" where
  "score x = fst (snd (snd x))"

definition method_of :: "alignment \<Rightarrow> align_method" where
  "method_of x = snd (snd (snd x))"

definition rel_pair :: "alignment \<Rightarrow> int \<times> int" where
  "rel_pair x = (fst x, fst (snd x))"

text \<open>Lines 252-257: the candidates of the text method, kept from the threshold up.\<close>

definition text_candidates ::
  "(int \<times> string) list \<Rightarrow> (int \<times> string) list \<Rightarrow> real \<Rightarrow> alignment list" where
  "text_candidates kg1_relations kg2_relations text_sim_threshold =
     concat (map (\<lambda>r1. concat (map (\<lambda>r2.
        let similarity = text_similarity (snd r1) (snd r2)
        in if text_sim_threshold \<le> similarity
           then [(fst r1, fst r2, similarity, Text_Similarity)] else [])
        kg2_relations)) kg1_relations)"

text \<open>
  \<^verbatim>\<open>sort(key=lambda x: x[2], reverse=True)\<close>: by falling score, equal scores keeping
  their order.
\<close>

definition sort_by_score :: "alignment list \<Rightarrow> alignment list" where
  "sort_by_score xs = sort_key (\<lambda>x. - score x) xs"

text \<open>
  Lines 293-302: \<^verbatim>\<open>alignment_dict\<close>, keyed by the relation pair, as the list of its
  values in insertion order; a later alignment of a pair replaces the stored one only
  with a strictly higher score.
\<close>

fun merge_alignment :: "alignment list \<Rightarrow> alignment \<Rightarrow> alignment list" where
  "merge_alignment [] x = [x]"
| "merge_alignment (y # ys) x =
     (if rel_pair y = rel_pair x then (if score y < score x then x # ys else y # ys)
      else y # merge_alignment ys x)"

text \<open>
  The whole function. The scores of the co-occurrence method (lines 264-290) are taken
  as given, in the order the function appends them; the default threshold is 0.3.
\<close>

definition default_text_sim_threshold :: real where
  "default_text_sim_threshold = 0.3"

definition find_relation_alignments ::
  "(int \<times> string) list \<Rightarrow> (int \<times> string) list \<Rightarrow> (int \<times> int \<times> real) list \<Rightarrow> real
     \<Rightarrow> alignment list" where
  "find_relation_alignments kg1_relations kg2_relations cooccurrence text_sim_threshold =
     (if kg1_relations = [] \<or> kg2_relations = [] then []
      else
        let text_alignments =
              sort_by_score (text_candidates kg1_relations kg2_relations text_sim_threshold);
            alignments = text_alignments
              @ map (\<lambda>c. (fst c, fst (snd c), snd (snd c), Cooccurrence)) cooccurrence;
            alignment_dict = foldl merge_alignment [] alignments
        in sort_by_score alignment_dict)"

text \<open>
  For the bound on the number of matched elements: the most a window can contribute, the
  windows that lie inside the two sequences with equal lengths on both sides, and the
  two pieces of the sequences a window delimits.
\<close>

definition window_cap :: "window \<Rightarrow> nat" where
  "window_cap w = (case w of (alo, ahi, blo, bhi) \<Rightarrow> min (ahi - alo) (bhi - blo))"

definition window_square :: "'a list \<Rightarrow> 'a list \<Rightarrow> window \<Rightarrow> bool" where
  "window_square a b w =
     (case w of (alo, ahi, blo, bhi) \<Rightarrow>
        alo \<le> ahi \<and> ahi \<le> length a \<and> blo \<le> bhi \<and> bhi \<le> length b
        \<and> ahi - alo = bhi - blo)"

definition slice :: "'a list \<Rightarrow> nat \<Rightarrow> nat \<Rightarrow> 'a list" where
  "slice xs lo hi = take (hi - lo) (drop lo xs)"

definition window_same :: "'a list \<Rightarrow> 'a list \<Rightarrow> window \<Rightarrow> bool" where
  "window_same a b w = (case w of (alo, ahi, blo, bhi) \<Rightarrow> slice a alo ahi = slice b blo bhi)"

definition total :: "'a list \<Rightarrow> 'a list \<Rightarrow> window list \<Rightarrow> nat" where
  "total a b queue = sum_list (map match_size (blocks_loop a b queue []))"

section \<open>Properties of the supervision-set merge\<close>

lemma finite_load_sup_pairs: "finite (load_sup_pairs f)"
  by (simp add: load_sup_pairs_def split: option.splits)

lemma parse_pair_pair_line: "parse_pair (pair_line p) = Some p"
  by (simp add: pair_line_def)

lemma map_filter_pair_line: "List.map_filter parse_pair (map pair_line ps) = ps"
  by (induction ps) (simp_all add: List.map_filter_def parse_pair_pair_line)

lemma new_pairs_disjoint: "set (new_pairs S aligned) \<inter> S = {}"
  by (auto simp: new_pairs_def eligible_def Let_def)

text \<open>
  Claim C2. For every existing supervision set \<open>S\<close> and candidate list, a pair is among the
  newly accepted ones exactly when it is a candidate whose KG1 id is no first component of
  \<open>S\<close>, whose KG2 id is no second component of \<open>S\<close>, and which is not in \<open>S\<close>. The merge
  returns the number of accepted candidates; when none is accepted it returns 0 and leaves
  the store as it was; otherwise the file is rewritten as the union of \<open>S\<close> and the
  accepted pairs, in ascending order and without repetition. For a candidate list without
  repetition the returned count is the number of pairs the set grew by. With
  \<open>S = {(1,100)}\<close>, of the candidates (1,200), (2,100), (2,300) only (2,300) is accepted.
\<close>

theorem add_to_sup_pairs_filter_rule:
  fixes st :: sup_store and aligned :: "(int \<times> int) list" and p :: "int \<times> int"
  defines "S \<equiv> load_sup_pairs (sup_pairs_file st)"
  defines "new \<equiv> new_pairs S aligned"
  defines "res \<equiv> add_to_sup_pairs st aligned"
  shows "(p \<in> set new \<longleftrightarrow> p \<in> set aligned \<and> fst p \<notin> fst ` S \<and> snd p \<notin> snd ` S \<and> p \<notin> S)
    \<and> fst res = length new
    \<and> (new = [] \<longrightarrow> res = (0, st))
    \<and> (new \<noteq> [] \<longrightarrow>
          sup_pairs_file (snd res) = Some (map pair_line (sorted_list_of_set (S \<union> set new)))
        \<and> load_sup_pairs (sup_pairs_file (snd res)) = S \<union> set new
        \<and> sorted (sorted_list_of_set (S \<union> set new))
        \<and> distinct (sorted_list_of_set (S \<union> set new)))
    \<and> (distinct aligned \<longrightarrow> fst res = card (load_sup_pairs (sup_pairs_file (snd res)) - S))
    \<and> new_pairs {(1, 100)} [(1, 200), (2, 100), (2, 300)] = [(2, 300)]"
proof -
  have fin: "finite (S \<union> set new)"
    by (simp add: S_def finite_load_sup_pairs)
  have a: "p \<in> set new \<longleftrightarrow> p \<in> set aligned \<and> fst p \<notin> fst ` S \<and> snd p \<notin> snd ` S \<and> p \<notin> S"
    by (simp add: new_def new_pairs_def eligible_def Let_def)
  have newnil: "aligned = [] \<Longrightarrow> new = []"
    by (simp add: new_def new_pairs_def)
  have b: "fst res = length new"
    using newnil by (auto simp: res_def add_to_sup_pairs_def Let_def new_def S_def)
  have c: "new = [] \<Longrightarrow> res = (0, st)"
    by (auto simp: res_def add_to_sup_pairs_def Let_def new_def S_def)
  have d1: "new \<noteq> [] \<Longrightarrow>
      sup_pairs_file (snd res) = Some (map pair_line (sorted_list_of_set (S \<union> set new)))"
    using newnil
    by (auto simp: res_def add_to_sup_pairs_def Let_def new_def S_def split: option.splits)
  have d2: "load_sup_pairs (sup_pairs_file (snd res)) = S \<union> set new" if "new \<noteq> []"
    using d1 [OF that] fin by (simp add: load_sup_pairs_def map_filter_pair_line)
  have e: "fst res = card (load_sup_pairs (sup_pairs_file (snd res)) - S)" if dist: "distinct aligned"
  proof (cases "new = []")
    case True
    then show ?thesis using c by (simp add: S_def)
  next
    case False
    have "set new \<inter> S = {}" unfolding new_def by (rule new_pairs_disjoint)
    then have "(S \<union> set new) - S = set new" by auto
    moreover have "distinct new" using dist by (simp add: new_def new_pairs_def)
    ultimately show ?thesis using b d2 [OF False] by (simp add: distinct_card)
  qed
  have f: "new_pairs {(1, 100)} [(1, 200), (2, 100), (2, 300)] = [(2, 300)]"
    by (simp add: new_pairs_def eligible_def)
  show ?thesis using a b c d1 d2 e f by simp
qed

text \<open>The theorem at the store holding (1,100), with and without an acceptable candidate.\<close>

theorem add_to_sup_pairs_filter_rule_witness:
  "add_to_sup_pairs \<lparr>sup_pairs_file = Some [[Some 1, Some 100]], backup_file = None\<rparr> [(1, 200), (2, 100), (2, 300)]
     = (1, \<lparr>sup_pairs_file = Some [[Some 1, Some 100], [Some 2, Some 300]], backup_file = Some [[Some 1, Some 100]]\<rparr>)
   \<and> load_sup_pairs (Some [[Some 1, Some 100], [Some 2, Some 300]]) = {(1, 100), (2, 300)}
   \<and> add_to_sup_pairs \<lparr>sup_pairs_file = Some [[Some 1, Some 100]], backup_file = None\<rparr> [(1, 200), (2, 100)]
     = (0, \<lparr>sup_pairs_file = Some [[Some 1, Some 100]], backup_file = None\<rparr>)"
proof -
  let ?st = "\<lparr>sup_pairs_file = Some [[Some 1, Some 100]], backup_file = None\<rparr>"
  have S: "load_sup_pairs (Some [[Some 1, Some 100]]) = {(1, 100)}"
    by (simp add: load_sup_pairs_def List.map_filter_def)
  have n1: "new_pairs {(1, 100)} [(1, 200), (2, 100), (2, 300)] = [(2, 300)]"
    by (simp add: new_pairs_def eligible_def)
  have n2: "new_pairs {(1, 100)} [(1, 200), (2, 100)] = []"
    by (simp add: new_pairs_def eligible_def)
  have srt: "sorted_list_of_set {(1, 100), (2, 300 :: int)} = [(1 :: int, 100), (2, 300)]"
    by (simp add: sorted_list_of_set_insert_remove)
  note t1 = add_to_sup_pairs_filter_rule [of "(2, 300)" ?st "[(1, 200), (2, 100), (2, 300)]"]
  note t2 = add_to_sup_pairs_filter_rule [of "(2, 300)" ?st "[(1, 200), (2, 100)]"]
  have r1: "add_to_sup_pairs ?st [(1, 200), (2, 100), (2, 300)]
     = (1, \<lparr>sup_pairs_file = Some [[Some 1, Some 100], [Some 2, Some 300]], backup_file = Some [[Some 1, Some 100]]\<rparr>)"
    by (simp add: add_to_sup_pairs_def S n1 srt pair_line_def Let_def)
  have r2: "add_to_sup_pairs ?st [(1, 200), (2, 100)] = (0, ?st)"
    using t2 by (simp add: S n2)
  have r3: "load_sup_pairs (Some [[Some 1, Some 100], [Some 2, Some 300]]) = {(1, 100), (2, 300)}"
    using t1 by (auto simp: S n1 r1 srt pair_line_def)
  show ?thesis using r1 r2 r3 by simp
qed

text \<open>
  Claim C1. The one-to-one property is not kept by every merge: the filter compares each
  candidate with the ids loaded from the file only, so two candidates of one list that
  share a KG2 id (or a KG1 id) are both accepted. From the one-to-one set \<open>{(1,100)}\<close>,
  merging the list (2,300), (3,300) accepts both, and KG2 id 300 then occurs twice.
\<close>

theorem add_to_sup_pairs_duplicate_kg2_in_batch:"one_to_one (load_sup_pairs (Some [[Some 1, Some 100]]))
   \<and> add_to_sup_pairs \<lparr>sup_pairs_file = Some [[Some 1, Some 100]], backup_file = None\<rparr> [(2, 300), (3, 300)]
       = (2, \<lparr>sup_pairs_file = Some [[Some 1, Some 100], [Some 2, Some 300], [Some 3, Some 300]],
              backup_file = Some [[Some 1, Some 100]]\<rparr>)
   \<and> load_sup_pairs (sup_pairs_file (merge_all \<lparr>sup_pairs_file = Some [[Some 1, Some 100]], backup_file = None\<rparr> [[(2, 300), (3, 300)]]))
       = {(1, 100), (2, 300), (3, 300)}
   \<and> \<not> one_to_one {(1, 100), (2, 300), (3, 300)}"
  by (simp add: add_to_sup_pairs_def load_sup_pairs_def new_pairs_def eligible_def
      List.map_filter_def Let_def pair_line_def sorted_list_of_set_insert_remove
      one_to_one_def inj_on_def)

section \<open>Properties of the per-scale confidence label\<close>

text \<open>
  A scale without candidates falls into the second branch of the code and is labelled
  medium as well.
\<close>

lemma confidence_of_no_candidates: "confidence_of [] = ''medium''"
  by (simp add: confidence_of_def)

text \<open>
  Claim C7. The label of a scale is strong for exactly one candidate, medium for two or
  three, weak for more than three; for the counts 1, 5, 2 at L1, L2, L3 the labels are
  strong, weak, medium.
\<close>

theorem confidence_signal_thresholds:
  "(length (get_candidates ci s) = 1 \<longrightarrow>
      confidence_signal (analyze_intra_scale_interaction ci s) = ''strong'')
   \<and> (2 \<le> length (get_candidates ci s) \<and> length (get_candidates ci s) \<le> 3 \<longrightarrow>
      confidence_signal (analyze_intra_scale_interaction ci s) = ''medium'')
   \<and> (3 < length (get_candidates ci s) \<longrightarrow>
      confidence_signal (analyze_intra_scale_interaction ci s) = ''weak'')
   \<and> map (\<lambda>s. confidence_signal (analyze_intra_scale_interaction
              [L1 \<mapsto> [11], L2 \<mapsto> [21, 22, 23, 24, 25], L3 \<mapsto> [31, 32]] s)) [L1, L2, L3]
       = [''strong'', ''weak'', ''medium'']"
  by (simp add: analyze_intra_scale_interaction_def confidence_of_def get_candidates_def Let_def)

theorem confidence_signal_thresholds_witness:
  "confidence_signal (analyze_intra_scale_interaction
       [L1 \<mapsto> [11], L2 \<mapsto> [21, 22, 23, 24, 25], L3 \<mapsto> [31, 32]] L1) = ''strong''
   \<and> confidence_signal (analyze_intra_scale_interaction
       [L1 \<mapsto> [11], L2 \<mapsto> [21, 22, 23, 24, 25], L3 \<mapsto> [31, 32]] L3) = ''medium''
   \<and> confidence_signal (analyze_intra_scale_interaction
       [L1 \<mapsto> [11], L2 \<mapsto> [21, 22, 23, 24, 25], L3 \<mapsto> [31, 32]] L2) = ''weak''"
proof -
  let ?ci = "[L1 \<mapsto> [11], L2 \<mapsto> [21, 22, 23, 24, 25], L3 \<mapsto> [31, 32 :: int]]"
  have n1: "length (get_candidates ?ci L1) = 1" by (simp add: get_candidates_def)
  have n2: "3 < length (get_candidates ?ci L2)" by (simp add: get_candidates_def)
  have n3: "2 \<le> length (get_candidates ?ci L3) \<and> length (get_candidates ?ci L3) \<le> 3"
    by (simp add: get_candidates_def)
  from confidence_signal_thresholds [of ?ci L1] n1
  have a: "confidence_signal (analyze_intra_scale_interaction ?ci L1) = ''strong''" by blast
  from confidence_signal_thresholds [of ?ci L2] n2
  have b: "confidence_signal (analyze_intra_scale_interaction ?ci L2) = ''weak''" by blast
  from confidence_signal_thresholds [of ?ci L3] n3
  have c: "confidence_signal (analyze_intra_scale_interaction ?ci L3) = ''medium''" by blast
  show ?thesis using a b c by simp
qed

section \<open>Properties of the cross-scale conflict report\<close>

lemma top_candidates_cases:
  "top_candidates ci =
     (case get_candidates ci L1 of [] \<Rightarrow> [] | a # r1 \<Rightarrow> [(L1, a)])
   @ (case get_candidates ci L2 of [] \<Rightarrow> [] | b # r2 \<Rightarrow> [(L2, b)])
   @ (case get_candidates ci L3 of [] \<Rightarrow> [] | c # r3 \<Rightarrow> [(L3, c)])"
  by (simp add: top_candidates_def)

text \<open>
  Claim C6. The rank-1 candidates are those of the non-empty scales, in the order L1, L2,
  L3. With fewer than two of them there is no conflict and the consensus is the sole one
  (or none). With two or more, all equal, there is no conflict and that value is the
  consensus. Otherwise a conflict is reported; the consensus is the first rank-1 value, in
  that order, that no other value outnumbers (the most frequent one, ties going to the
  one met first); and the dissenting scales are exactly those whose rank-1 value differs
  from it. For L1 = 5, L2 = 5, L3 = 7: conflict, consensus 5, dissenting [L3].
\<close>

theorem detect_cross_scale_conflicts_spec:
  fixes ci :: candidate_info
  defines "tops \<equiv> top_candidates ci"
  defines "vals \<equiv> map snd tops"
  defines "r \<equiv> detect_cross_scale_conflicts ci"
  shows
   "map fst tops = filter (\<lambda>s. get_candidates ci s \<noteq> []) [L1, L2, L3]
    \<and> (\<forall>sv \<in> set tops. snd sv = hd (get_candidates ci (fst sv)))
    \<and> (length tops < 2 \<longrightarrow>
          \<not> has_conflict r \<and> conflicting_scales r = []
          \<and> consensus_candidate r = (case vals of [] \<Rightarrow> None | v # rest \<Rightarrow> Some v))
    \<and> (2 \<le> length tops \<and> (\<forall>v \<in> set vals. v = hd vals) \<longrightarrow>
          \<not> has_conflict r \<and> conflicting_scales r = [] \<and> consensus_candidate r = Some (hd vals))
    \<and> (2 \<le> length tops \<and> \<not> (\<forall>v \<in> set vals. v = hd vals) \<longrightarrow>
          has_conflict r
          \<and> consensus_candidate r
              = find (\<lambda>v. \<forall>w \<in> set vals. count_list vals w \<le> count_list vals v) vals
          \<and> consensus_candidate r \<noteq> None
          \<and> conflicting_scales r
              = map fst (filter (\<lambda>sv. Some (snd sv) \<noteq> consensus_candidate r) tops))
    \<and> detect_cross_scale_conflicts [L1 \<mapsto> [5], L2 \<mapsto> [5], L3 \<mapsto> [7]]
        = \<lparr>has_conflict = True, conflict_type = ''cross_scale'', conflicting_scales = [L3],
           report_top_candidates = [(L1, 5), (L2, 5), (L3, 7)], consensus_candidate = Some 5\<rparr>"
  unfolding tops_def vals_def r_def detect_cross_scale_conflicts_def top_candidates_cases
  by (cases "get_candidates ci L1"; cases "get_candidates ci L2"; cases "get_candidates ci L3")
     (auto simp: Let_def candidate_counts_def majority_def card_insert_if get_candidates_def
           split: if_splits)

text \<open>The theorem at L1 = 5, L2 = 5, L3 = 7.\<close>

theorem detect_cross_scale_conflicts_spec_witness:
  "has_conflict (detect_cross_scale_conflicts [L1 \<mapsto> [5], L2 \<mapsto> [5], L3 \<mapsto> [7]])
   \<and> consensus_candidate (detect_cross_scale_conflicts [L1 \<mapsto> [5], L2 \<mapsto> [5], L3 \<mapsto> [7]]) = Some 5
   \<and> conflicting_scales (detect_cross_scale_conflicts [L1 \<mapsto> [5], L2 \<mapsto> [5], L3 \<mapsto> [7]]) = [L3]"
proof -
  let ?ci = "[L1 \<mapsto> [5], L2 \<mapsto> [5], L3 \<mapsto> [7 :: int]]"
  have tops: "top_candidates ?ci = [(L1, 5), (L2, 5), (L3, 7)]"
    by (simp add: top_candidates_def get_candidates_def)
  have hyp: "2 \<le> length (top_candidates ?ci)
      \<and> \<not> (\<forall>v \<in> set (map snd (top_candidates ?ci)). v = hd (map snd (top_candidates ?ci)))"
    by (simp add: tops)
  have fnd: "find (\<lambda>v. \<forall>w \<in> set (map snd (top_candidates ?ci)).
                 count_list (map snd (top_candidates ?ci)) w \<le> count_list (map snd (top_candidates ?ci)) v)
               (map snd (top_candidates ?ci)) = Some 5"
    by (simp add: tops)
  from detect_cross_scale_conflicts_spec [of ?ci] hyp
  have "has_conflict (detect_cross_scale_conflicts ?ci)
      \<and> consensus_candidate (detect_cross_scale_conflicts ?ci)
          = find (\<lambda>v. \<forall>w \<in> set (map snd (top_candidates ?ci)).
                 count_list (map snd (top_candidates ?ci)) w \<le> count_list (map snd (top_candidates ?ci)) v)
               (map snd (top_candidates ?ci))
      \<and> conflicting_scales (detect_cross_scale_conflicts ?ci)
          = map fst (filter (\<lambda>sv. Some (snd sv) \<noteq> consensus_candidate (detect_cross_scale_conflicts ?ci))
               (top_candidates ?ci))"
    by blast
  then show ?thesis by (simp add: fnd tops)
qed

section \<open>Properties of the common time intervals\<close>

lemma interval_loop_acc:
  "interval_loop acc s e ts = acc @ interval_loop [] s e ts"
proof (induction ts arbitrary: acc s e)
  case Nil
  show ?case by simp
next
  case (Cons t ts)
  show ?case
  proof (cases "t = e + 1")
    case True
    then show ?thesis using Cons.IH [of acc s t] by simp
  next
    case False
    then show ?thesis
      using Cons.IH [of "acc @ [(s, e)]" t t] Cons.IH [of "[(s, e)]" t t] by simp
  qed
qed

lemma interval_loop_props:
  "s \<le> e \<Longrightarrow> sorted_wrt (<) (e # ts) \<Longrightarrow>
     (\<forall>p \<in> set (interval_loop [] s e ts). s \<le> fst p \<and> fst p \<le> snd p)
     \<and> sorted_wrt apart (interval_loop [] s e ts)
     \<and> covered (interval_loop [] s e ts) = {s .. e} \<union> set ts"
proof (induction ts arbitrary: s e)
  case Nil
  then show ?case by (simp add: covered_def)
next
  case (Cons t ts)
  have lt: "e < t" and st: "sorted_wrt (<) (t # ts)"
    using Cons.prems(2) by auto
  show ?case
  proof (cases "t = e + 1")
    case True
    have "s \<le> t" using Cons.prems(1) lt by simp
    from Cons.IH [OF this st]
    have ih: "(\<forall>p \<in> set (interval_loop [] s t ts). s \<le> fst p \<and> fst p \<le> snd p)
       \<and> sorted_wrt apart (interval_loop [] s t ts)
       \<and> covered (interval_loop [] s t ts) = {s .. t} \<union> set ts" .
    have "{s .. t} = {s .. e} \<union> {t}" using True Cons.prems(1) by auto
    then show ?thesis using ih True by auto
  next
    case False
    have "t \<le> t" by simp
    from Cons.IH [OF this st]
    have ih: "(\<forall>p \<in> set (interval_loop [] t t ts). t \<le> fst p \<and> fst p \<le> snd p)
       \<and> sorted_wrt apart (interval_loop [] t t ts)
       \<and> covered (interval_loop [] t t ts) = {t .. t} \<union> set ts" .
    have eq: "interval_loop [] s e (t # ts) = (s, e) # interval_loop [] t t ts"
      using False interval_loop_acc [of "[(s, e)]" t t ts] by simp
    have gap: "e + 1 < t" using lt False by simp
    have ap: "\<forall>p \<in> set (interval_loop [] t t ts). apart (s, e) p"
      using ih gap by (auto simp: apart_def)
    have fst_ok: "\<forall>p \<in> set (interval_loop [] t t ts). s \<le> fst p"
      using ih Cons.prems(1) lt by fastforce
    have cov: "covered ((s, e) # interval_loop [] t t ts) = {s .. e} \<union> set (t # ts)"
      using ih by (auto simp: covered_def)
    show ?thesis
      unfolding eq using ih ap fst_ok cov Cons.prems(1) by simp
  qed
qed

lemma sorted_wrt_members:
  "sorted_wrt P xs \<Longrightarrow> x \<in> set xs \<Longrightarrow> y \<in> set xs \<Longrightarrow> x = y \<or> P x y \<or> P y x"
  by (induction xs) auto

lemma apart_maximal:
  assumes sw: "sorted_wrt apart ivs" and wf: "\<forall>p \<in> set ivs. fst p \<le> snd p" and p: "p \<in> set ivs"
  shows "fst p - 1 \<notin> covered ivs \<and> snd p + 1 \<notin> covered ivs"
proof -
  have "k \<notin> {fst q .. snd q}" if q: "q \<in> set ivs" and k: "k = fst p - 1 \<or> k = snd p + 1" for q k
  proof -
    from sorted_wrt_members [OF sw p q] have "p = q \<or> apart p q \<or> apart q p" .
    then show ?thesis using k wf p q by (auto simp: apart_def)
  qed
  then show ?thesis by (auto simp: covered_def)
qed

lemma apart_sorted_fst:
  assumes sw: "sorted_wrt apart ivs" and wf: "\<forall>p \<in> set ivs. fst p \<le> snd p"
  shows "sorted_wrt (<) (map fst ivs)"
proof -
  have "sorted_wrt (\<lambda>p q. fst p < fst q) ivs"
    using sw wf by (rule_tac sorted_wrt_mono_rel [of ivs apart]) (auto simp: apart_def)
  then show ?thesis by (simp add: sorted_wrt_map)
qed

text \<open>
  Claim C4. For two time-id sets with a finite intersection, the interval list is
  ascending; any two of its intervals, in list order, are apart (the later one starts at
  least two after the earlier one ends, so they neither overlap nor touch); every
  interval is a non-empty run lying inside the intersection whose two neighbours, one
  below and one above, are outside it (a maximal run); the integers covered are exactly
  the intersection; and an empty intersection gives the empty list.
\<close>

theorem common_time_intervals_spec:
  fixes times1 times2 :: "int set"
  defines "ivs \<equiv> common_time_intervals times1 times2"
  assumes fin: "finite (times1 \<inter> times2)"
  shows "sorted_wrt (<) (map fst ivs)
    \<and> sorted_wrt apart ivs
    \<and> (\<forall>p \<in> set ivs. fst p \<le> snd p)
    \<and> covered ivs = times1 \<inter> times2
    \<and> (\<forall>p \<in> set ivs. {fst p .. snd p} \<subseteq> times1 \<inter> times2
          \<and> fst p - 1 \<notin> times1 \<inter> times2 \<and> snd p + 1 \<notin> times1 \<inter> times2)
    \<and> (times1 \<inter> times2 = {} \<longrightarrow> ivs = [])
    \<and> get_common_time_intervals [1 \<mapsto> times1] [2 \<mapsto> times2] 1 2 = ivs"
proof -
  let ?S = "times1 \<inter> times2"
  have main: "sorted_wrt apart ivs \<and> (\<forall>p \<in> set ivs. fst p \<le> snd p) \<and> covered ivs = ?S"
  proof (cases "?S = {}")
    case True
    then show ?thesis by (simp add: ivs_def common_time_intervals_def covered_def)
  next
    case False
    then obtain t ts where l: "sorted_list_of_set ?S = t # ts"
      using fin by (cases "sorted_list_of_set ?S") auto
    have ss: "sorted_wrt (<) (t # ts)"
      using strict_sorted_list_of_set [of ?S] l by simp
    have st: "set (t # ts) = ?S"
      using set_sorted_list_of_set [OF fin] l by simp
    have iv: "ivs = interval_loop [] t t ts"
      using False l by (simp add: ivs_def common_time_intervals_def)
    have "t \<le> t" by simp
    from interval_loop_props [OF this ss] st show ?thesis
      unfolding iv by auto
  qed
  then have sw: "sorted_wrt apart ivs" and wf: "\<forall>p \<in> set ivs. fst p \<le> snd p"
    and cov: "covered ivs = ?S" by auto
  have a: "sorted_wrt (<) (map fst ivs)" by (rule apart_sorted_fst [OF sw wf])
  have b: "\<forall>p \<in> set ivs. {fst p .. snd p} \<subseteq> ?S \<and> fst p - 1 \<notin> ?S \<and> snd p + 1 \<notin> ?S"
  proof
    fix p assume p: "p \<in> set ivs"
    have "{fst p .. snd p} \<subseteq> covered ivs" using p by (auto simp: covered_def)
    then show "{fst p .. snd p} \<subseteq> ?S \<and> fst p - 1 \<notin> ?S \<and> snd p + 1 \<notin> ?S"
      using apart_maximal [OF sw wf p] cov by simp
  qed
  have c: "?S = {} \<longrightarrow> ivs = []"
    by (simp add: ivs_def common_time_intervals_def)
  have d: "get_common_time_intervals [1 \<mapsto> times1] [2 \<mapsto> times2] 1 2 = ivs"
    by (simp add: get_common_time_intervals_def get_set_def ivs_def)
  show ?thesis using a sw wf cov b c d by blast
qed

text \<open>The theorem at two concrete sets, and at two sets that share no time point.\<close>

theorem common_time_intervals_spec_witness:
  "common_time_intervals {1, 2, 3, 5, 8, 9, 20} {2, 3, 5, 7, 8, 9, 10} = [(2, 3), (5, 5), (8, 9)]
   \<and> sorted_wrt apart (common_time_intervals {1, 2, 3, 5, 8, 9, 20} {2, 3, 5, 7, 8, 9, 10})
   \<and> covered (common_time_intervals {1, 2, 3, 5, 8, 9, 20} {2, 3, 5, 7, 8, 9, 10})
       = {1, 2, 3, 5, 8, 9, 20} \<inter> {2, 3, 5, 7, 8, 9, 10}
   \<and> common_time_intervals {1, 2} {5} = []"
proof -
  let ?A = "{1, 2, 3, 5, 8, 9, 20 :: int}" and ?B = "{2, 3, 5, 7, 8, 9, 10 :: int}"
  have fin: "finite (?A \<inter> ?B)" by simp
  have fin2: "finite ({1, 2} \<inter> {5 :: int})" by simp
  have emp: "{1, 2} \<inter> {5 :: int} = {}" by simp
  have ev: "common_time_intervals ?A ?B = [(2, 3), (5, 5), (8, 9)]"
    by (simp add: common_time_intervals_def sorted_list_of_set_insert_remove)
  note t = common_time_intervals_spec [OF fin]
  note u = common_time_intervals_spec [OF fin2]
  have a1: "sorted_wrt apart (common_time_intervals ?A ?B)"
    by (rule t [THEN conjunct2, THEN conjunct1])
  have a2: "covered (common_time_intervals ?A ?B) = ?A \<inter> ?B"
    by (rule t [THEN conjunct2, THEN conjunct2, THEN conjunct2, THEN conjunct1])
  have b: "common_time_intervals {1, 2} {5} = []"
    by (rule u [THEN conjunct2, THEN conjunct2, THEN conjunct2, THEN conjunct2, THEN conjunct2,
          THEN conjunct1, THEN mp, OF emp])
  show ?thesis
    by (rule conjI [OF ev conjI [OF a1 conjI [OF a2 b]]])
qed

section \<open>Properties of aspect-id allocation\<close>

lemma temporal_projection_ids:
  "temporal_ids (temporal_projection d acc pr) =
     (if get_common_time_intervals (kg1_entity_times d) (kg2_entity_times d) (fst pr) (snd pr) \<noteq> []
      then temporal_ids acc @ [temporal_aspect_counter (fst acc)] else temporal_ids acc)
   \<and> relational_ids (temporal_projection d acc pr) = relational_ids acc
   \<and> relational_aspect_counter (fst (temporal_projection d acc pr)) = relational_aspect_counter (fst acc)"
  by (cases acc) (simp add: temporal_projection_def temporal_ids_def relational_ids_def Let_def)

lemma relational_projection_ids:
  "relational_ids (relational_projection d acc pr) =
     (if get_common_relations d (fst pr) (snd pr) \<noteq> {}
      then relational_ids acc @ [relational_aspect_counter (fst acc)] else relational_ids acc)
   \<and> temporal_ids (relational_projection d acc pr) = temporal_ids acc
   \<and> temporal_aspect_counter (fst (relational_projection d acc pr)) = temporal_aspect_counter (fst acc)"
  by (cases acc) (simp add: relational_projection_def temporal_ids_def relational_ids_def Let_def)

lemma temporal_projection_inv: "alloc_inv acc \<Longrightarrow> alloc_inv (temporal_projection d acc pr)"
  by (cases acc)
     (auto simp: alloc_inv_def temporal_projection_def temporal_ids_def relational_ids_def
        aspect_mapping_def Let_def)

lemma relational_projection_inv: "alloc_inv acc \<Longrightarrow> alloc_inv (relational_projection d acc pr)"
  by (cases acc)
     (auto simp: alloc_inv_def relational_projection_def temporal_ids_def relational_ids_def
        aspect_mapping_def Let_def)

lemma decompose_pair_inv: "alloc_inv acc \<Longrightarrow> alloc_inv (decompose_pair d acc pr)"
  by (simp add: decompose_pair_def temporal_projection_inv relational_projection_inv)

lemma decompose_pair_lengths:
  "length (temporal_ids (decompose_pair d acc pr)) =
     length (temporal_ids acc) +
       (if get_common_time_intervals (kg1_entity_times d) (kg2_entity_times d) (fst pr) (snd pr) \<noteq> []
        then 1 else 0)
   \<and> length (relational_ids (decompose_pair d acc pr)) =
     length (relational_ids acc) + (if get_common_relations d (fst pr) (snd pr) \<noteq> {} then 1 else 0)"
  by (simp add: decompose_pair_def temporal_projection_ids relational_projection_ids)

lemma foldl_decompose_inv: "alloc_inv acc \<Longrightarrow> alloc_inv (foldl (decompose_pair d) acc ps)"
  by (induction ps arbitrary: acc) (simp_all add: decompose_pair_inv)

lemma foldl_decompose_lengths:
  "length (temporal_ids (foldl (decompose_pair d) acc ps)) =
     length (temporal_ids acc) +
       length (filter (\<lambda>pr. get_common_time_intervals (kg1_entity_times d) (kg2_entity_times d)
                                (fst pr) (snd pr) \<noteq> []) ps)
   \<and> length (relational_ids (foldl (decompose_pair d) acc ps)) =
     length (relational_ids acc) +
       length (filter (\<lambda>pr. get_common_relations d (fst pr) (snd pr) \<noteq> {}) ps)"
  by (induction ps arbitrary: acc) (simp_all add: decompose_pair_lengths)

lemma init_inv: "alloc_inv (init_aspect_state, [], [])"
  by (simp add: alloc_inv_def init_aspect_state_def temporal_ids_def relational_ids_def
      aspect_mapping_def)

lemma decompose_inv: "alloc_inv (decompose d init_aspect_state)"
  unfolding decompose_def by (rule foldl_decompose_inv [OF init_inv])

lemma decompose_lengths:
  "length (temporal_ids (decompose d init_aspect_state)) =
       length (filter (\<lambda>pr. get_common_time_intervals (kg1_entity_times d) (kg2_entity_times d)
                                (fst pr) (snd pr) \<noteq> []) (entity_pairs d))
   \<and> length (relational_ids (decompose d init_aspect_state)) =
       length (filter (\<lambda>pr. get_common_relations d (fst pr) (snd pr) \<noteq> {}) (entity_pairs d))"
  unfolding decompose_def
  using foldl_decompose_lengths [of d "(init_aspect_state, [], [])" "entity_pairs d"]
  by (simp add: temporal_ids_def relational_ids_def)

lemma consecutive_sorted: "sorted_wrt (<) (map (\<lambda>i. c + int i) [0 ..< n])"
  by (simp add: sorted_wrt_map sorted_wrt_iff_nth_less)

lemma consecutive_set: "set (map (\<lambda>i. c + int i) [0 ..< n]) = {c ..< c + int n}"
proof -
  have "a \<in> (\<lambda>i. c + int i) ` {0 ..< n}" if "c \<le> a" "a < c + int n" for a
  proof
    show "a = c + int (nat (a - c))" using that by simp
    show "nat (a - c) \<in> {0 ..< n}" using that by auto
  qed
  then show ?thesis by auto
qed

lemma decompose_id_sets:
  "set (temporal_ids (decompose d init_aspect_state))
     = {1000000 ..< 1000000 + int (length (temporal_ids (decompose d init_aspect_state)))}
   \<and> set (relational_ids (decompose d init_aspect_state))
     = {2000000 ..< 2000000 + int (length (relational_ids (decompose d init_aspect_state)))}"
proof -
  let ?run = "decompose d init_aspect_state"
  have inv: "alloc_inv ?run" by (rule decompose_inv)
  then have t: "temporal_ids ?run = map (\<lambda>i. 1000000 + int i) [0 ..< length (temporal_ids ?run)]"
    and r: "relational_ids ?run = map (\<lambda>i. 2000000 + int i) [0 ..< length (relational_ids ?run)]"
    by (simp_all add: alloc_inv_def)
  have "set (temporal_ids ?run) = {1000000 ..< 1000000 + int (length (temporal_ids ?run))}"
    by (subst t) (simp only: consecutive_set length_map length_upt diff_zero)
  moreover have "set (relational_ids ?run) = {2000000 ..< 2000000 + int (length (relational_ids ?run))}"
    by (subst r) (simp only: consecutive_set length_map length_upt diff_zero)
  ultimately show ?thesis by simp
qed

lemma many_pairs_lengths:
  "length (temporal_ids (decompose frontier_many_pairs init_aspect_state)) = 1000001
   \<and> length (relational_ids (decompose frontier_many_pairs init_aspect_state)) = 1000001"
proof -
  have t: "get_common_time_intervals (kg1_entity_times frontier_many_pairs)
             (kg2_entity_times frontier_many_pairs) 1 2 \<noteq> []"
    by (simp add: frontier_many_pairs_def get_common_time_intervals_def common_time_intervals_def
        get_set_def)
  have r: "get_common_relations frontier_many_pairs 1 2 \<noteq> {}"
    by (simp add: frontier_many_pairs_def get_common_relations_def get_set_def)
  have p: "entity_pairs frontier_many_pairs = replicate 1000001 (1, 2)"
    by (simp add: frontier_many_pairs_def)
  show ?thesis
    using decompose_lengths [of frontier_many_pairs] t r by (simp add: p)
qed

text \<open>
  What a run of \<^verbatim>\<open>decompose\<close> from the state of \<^verbatim>\<open>__init__\<close> does keep. The temporal
  aspect ids, in allocation order, are the consecutive integers from 1000000 and the
  relational ones those from 2000000, so they are strictly increasing and never reused
  within a kind. At most one id of each kind is handed out per frontier pair, and the
  aspect-to-original mapping has an entry for exactly the ids handed out.
\<close>

lemma decompose_ids_per_kind:
  fixes d :: kg_data
  defines "run \<equiv> decompose d init_aspect_state"
  shows "sorted_wrt (<) (temporal_ids run) \<and> sorted_wrt (<) (relational_ids run)
    \<and> distinct (temporal_ids run) \<and> distinct (relational_ids run)
    \<and> set (temporal_ids run) = {1000000 ..< 1000000 + int (length (temporal_ids run))}
    \<and> set (relational_ids run) = {2000000 ..< 2000000 + int (length (relational_ids run))}
    \<and> length (temporal_ids run) \<le> length (entity_pairs d)
    \<and> length (relational_ids run) \<le> length (entity_pairs d)
    \<and> dom (aspect_mapping run) = set (temporal_ids run) \<union> set (relational_ids run)"
proof -
  have inv: "alloc_inv run" unfolding run_def by (rule decompose_inv)
  then have t: "temporal_ids run = map (\<lambda>i. 1000000 + int i) [0 ..< length (temporal_ids run)]"
    and r: "relational_ids run = map (\<lambda>i. 2000000 + int i) [0 ..< length (relational_ids run)]"
    and m: "dom (aspect_mapping run) = set (temporal_ids run) \<union> set (relational_ids run)"
    by (simp_all add: alloc_inv_def)
  have st: "sorted_wrt (<) (temporal_ids run)" by (subst t) (rule consecutive_sorted)
  have sr: "sorted_wrt (<) (relational_ids run)" by (subst r) (rule consecutive_sorted)
  have dt: "distinct (temporal_ids run)" using st strict_sorted_iff by blast
  have dr: "distinct (relational_ids run)" using sr strict_sorted_iff by blast
  have set_t: "set (temporal_ids run) = {1000000 ..< 1000000 + int (length (temporal_ids run))}"
    by (subst t) (simp only: consecutive_set length_map length_upt diff_zero)
  have set_r: "set (relational_ids run) = {2000000 ..< 2000000 + int (length (relational_ids run))}"
    by (subst r) (simp only: consecutive_set length_map length_upt diff_zero)
  have lt: "length (temporal_ids run) \<le> length (entity_pairs d)"
    and lr: "length (relational_ids run) \<le> length (entity_pairs d)"
    unfolding run_def using decompose_lengths [of d] by simp_all
  show ?thesis using st sr dt dr set_t set_r lt lr m by blast
qed

text \<open>A run on a frontier of two pairs: one temporal and one relational aspect.\<close>

lemma decompose_two_pairs:
  "temporal_ids (decompose frontier_two_pairs init_aspect_state) = [1000000]
   \<and> relational_ids (decompose frontier_two_pairs init_aspect_state) = [2000000]
   \<and> dom (aspect_mapping (decompose frontier_two_pairs init_aspect_state)) = {1000000, 2000000}"
proof -
  let ?run = "decompose frontier_two_pairs init_aspect_state"
  have iv: "common_time_intervals {3, 4, 5} {4, 5, 9} = [(4, 5)]"
    by (simp add: common_time_intervals_def sorted_list_of_set_insert_remove)
  have ev: "temporal_ids ?run = [1000000] \<and> relational_ids ?run = [2000000]"
    by (simp add: frontier_two_pairs_def decompose_def decompose_pair_def temporal_projection_def
        relational_projection_def get_common_relations_def get_common_time_intervals_def
        iv get_set_def init_aspect_state_def temporal_ids_def relational_ids_def Let_def
        common_time_intervals_def)
  have c: "dom (aspect_mapping ?run) = {1000000, 2000000}"
    using decompose_ids_per_kind [of frontier_two_pairs] ev by auto
  show ?thesis using ev c by simp
qed

text \<open>
  Claim C5: within one run of \<^verbatim>\<open>decompose\<close> the aspect ids are strictly increasing per
  kind and never reused, collide neither with each other nor with a real entity id, and
  each has an entry in the aspect-to-original mapping. The code does not keep the part
  on collisions. The two counters start at 1000000 and 2000000 (line 65: "Start from
  large number to avoid conflicts with real entity IDs") and are incremented with no
  check against the entity ids of the frontier or against each other. For the frontier
  pair (1, 1000000) the first temporal aspect gets the id 1000000, which is the KG2
  entity of that pair, and that id becomes a key of the aspect-to-original mapping, so
  the real entity 1000000 is taken for an aspect wherever the mapping is consulted. For a
  frontier of 1000001 pairs that all have a common time point and a common relation, the
  last temporal aspect and the first relational aspect both get the id 2000000.
\<close>

theorem aspect_ids_collide:
  "temporal_ids (decompose frontier_large_kg2_id init_aspect_state) = [1000000]
   \<and> entity_pairs frontier_large_kg2_id = [(1, 1000000)]
   \<and> 1000000 \<in> dom (aspect_mapping (decompose frontier_large_kg2_id init_aspect_state))
   \<and> length (entity_pairs frontier_many_pairs) = 1000001
   \<and> 2000000 \<in> set (temporal_ids (decompose frontier_many_pairs init_aspect_state))
   \<and> 2000000 \<in> set (relational_ids (decompose frontier_many_pairs init_aspect_state))"
proof -
  have a: "temporal_ids (decompose frontier_large_kg2_id init_aspect_state) = [1000000]"
    by (simp add: frontier_large_kg2_id_def decompose_def decompose_pair_def temporal_projection_def
        relational_projection_def get_common_relations_def get_common_time_intervals_def
        common_time_intervals_def get_set_def init_aspect_state_def temporal_ids_def Let_def)
  have b: "entity_pairs frontier_large_kg2_id = [(1, 1000000)]"
    by (simp add: frontier_large_kg2_id_def)
  have m: "1000000 \<in> dom (aspect_mapping (decompose frontier_large_kg2_id init_aspect_state))"
    by (simp add: frontier_large_kg2_id_def decompose_def decompose_pair_def temporal_projection_def
        relational_projection_def get_common_relations_def get_common_time_intervals_def
        common_time_intervals_def get_set_def init_aspect_state_def aspect_mapping_def Let_def)
  have n: "length (entity_pairs frontier_many_pairs) = 1000001"
    by (simp add: frontier_many_pairs_def)
  have c: "2000000 \<in> set (temporal_ids (decompose frontier_many_pairs init_aspect_state))"
    using decompose_id_sets [of frontier_many_pairs] many_pairs_lengths by simp
  have d: "2000000 \<in> set (relational_ids (decompose frontier_many_pairs init_aspect_state))"
    using decompose_id_sets [of frontier_many_pairs] many_pairs_lengths by simp
  show ?thesis using a b m n c d by simp
qed

section \<open>Properties of the answer parse\<close>








section \<open>Properties of the iteration controller\<close>

lemma s4_step_called:
  "s4_step env skip_s4 it w = (go_on, w1, success1, called1) \<Longrightarrow>
     called1 = [] \<or> called1 = [S4_Training it]"
  by (auto simp: s4_step_def split: if_splits prod.splits)

lemma run_iteration_stop:
  assumes s4: "s4_step env skip_s4 (iteration st + 1) (world st) = (True, w1, success1, called1)"
    and low: "int (count_unique_kg1_entities (read_frontier env w1)) < min_kg1_entities"
  shows "run_iteration env skip_s4 max_iterations min_kg1_entities st =
     Return True \<lparr>iteration = iteration st + 1, world = w1,
                  all_success_steps = all_success_steps st @ success1,
                  calls = calls st @ called1
                    @ [Count_Check (iteration st + 1) (count_unique_kg1_entities (read_frontier env w1))]\<rparr>"
  using s4 low by (simp add: run_iteration_def Let_def)

lemma calls_inv_no_low: "calls_inv m st \<Longrightarrow> stopped_ok m (r, st)"
  by (fastforce simp: calls_inv_def stopped_ok_def)

lemma run_iteration_Next_inv:
  assumes inv: "calls_inv m st" and nx: "run_iteration env skip_s4 mx m st = Next st'"
  shows "calls_inv m st'"
proof -
  obtain go_on w1 success1 called1 where
    s4: "s4_step env skip_s4 (iteration st + 1) (world st) = (go_on, w1, success1, called1)"
    by (metis prod_cases4)
  have c1: "called1 = [] \<or> called1 = [S4_Training (iteration st + 1)]"
    by (rule s4_step_called [OF s4])
  have old: "\<forall>e \<in> set (calls st). event_iteration e \<le> iteration st + 1"
    using inv by (fastforce simp: calls_inv_def)
  have cnt: "\<forall>i n. Count_Check i n \<in> set (calls st) \<longrightarrow> m \<le> int n"
    using inv by (simp add: calls_inv_def)
  show ?thesis
    using nx s4 c1 old cnt
    by (auto simp: run_iteration_def Let_def calls_inv_def split: prod.splits if_splits)
qed

lemma run_iteration_Return_ok:
  assumes inv: "calls_inv m st" and rt: "run_iteration env skip_s4 mx m st = Return r st'"
  shows "stopped_ok m (r, st')"
proof -
  obtain go_on w1 success1 called1 where
    s4: "s4_step env skip_s4 (iteration st + 1) (world st) = (go_on, w1, success1, called1)"
    by (metis prod_cases4)
  have c1: "called1 = [] \<or> called1 = [S4_Training (iteration st + 1)]"
    by (rule s4_step_called [OF s4])
  have old: "\<forall>e \<in> set (calls st). event_iteration e < iteration st + 1"
    using inv by (fastforce simp: calls_inv_def)
  then have o1: "S4_To_Retrieval (iteration st + 1) \<notin> set (calls st)"
    and o2: "Fusion (iteration st + 1) \<notin> set (calls st)"
    by fastforce+
  have cnt: "\<not> int n < m" if "Count_Check i n \<in> set (calls st)" for i n
    using inv that by (fastforce simp: calls_inv_def)
  show ?thesis
    using rt s4 c1 o1 o2
    by (auto simp: run_iteration_def Let_def stopped_ok_def split: prod.splits if_splits
          dest: cnt)
qed

lemma pipeline_loop_stopped_ok:
  "calls_inv m st \<Longrightarrow> stopped_ok m (pipeline_loop env skip_s4 mx m st)"
proof (induction env skip_s4 mx m st rule: pipeline_loop.induct)
  case (1 env skip_s4 mx m st)
  show ?case
  proof (cases "iteration st < mx")
    case False
    then show ?thesis using "1.prems" by (simp add: pipeline_loop.simps calls_inv_no_low)
  next
    case True
    show ?thesis
    proof (cases "run_iteration env skip_s4 mx m st")
      case (Return r st')
      then show ?thesis
        using True run_iteration_Return_ok [OF "1.prems" Return]
        by (simp add: pipeline_loop.simps)
    next
      case (Next st')
      have "calls_inv m st'" by (rule run_iteration_Next_inv [OF "1.prems" Next])
      from "1.IH" [OF True Next this] show ?thesis
        using True Next by (simp add: pipeline_loop.simps)
    qed
  qed
qed

lemma count_demo_frontier: "count_unique_kg1_entities (demo_frontier n) = n"
proof -
  have mf: "List.map_filter parse_kg1 (map (\<lambda>k. [Some (int k), Some (int k + 5000)]) xs) = map int xs" for xs
    by (induction xs) (simp_all add: List.map_filter_def)
  have "distinct (map int [1 ..< Suc n])" by (simp add: distinct_map)
  then have "card (set (map int [1 ..< Suc n])) = length (map int [1 ..< Suc n])"
    by (rule distinct_card)
  then have "card (set (map int [1 ..< Suc n])) = n" by simp
  with mf show ?thesis
    by (simp only: count_unique_kg1_entities_def demo_frontier_def frontier.case)
qed

lemma check_demo_frontier: "check_s4_output (demo_frontier n) = (0 < n)"
  by (simp add: check_s4_output_def demo_frontier_def del: upt_Suc)

lemma demo_run:
  "run_pipeline_loop demo_stages False 3 50 \<lparr>frontier_size = 200, supervision = []\<rparr> =
     (True,
      \<lparr>iteration = 3,
       world = \<lparr>frontier_size = 40,
                supervision = map (\<lambda>k. (int k, int k + 5000)) [81 ..< 201]
                              @ map (\<lambda>k. (int k, int k + 5000)) [41 ..< 81]\<rparr>,
       all_success_steps = [''S4 Training'', ''S4 to Retrieval'', ''Multi-Scale Fusion'',
                            ''S4 (already exists)'', ''S4 to Retrieval'', ''Multi-Scale Fusion'',
                            ''S4 (already exists)''],
       calls = [S4_Training 1, Count_Check 1 200, S4_To_Retrieval 1, Fusion 1,
                Count_Check 2 80, S4_To_Retrieval 2, Fusion 2,
                Count_Check 3 40]\<rparr>)"
  by (simp add: run_pipeline_loop_def initial_state_def pipeline_loop.simps run_iteration_def
      s4_step_def demo_stages_def demo_fusion_def count_demo_frontier check_demo_frontier Let_def
      del: upt_Suc)


lemma initial_calls_inv: "calls_inv m (initial_state w)"
  by (simp add: calls_inv_def initial_state_def)

text \<open>
  Claim C3. In any iteration that passes the loop test and step 1, a count of distinct
  KG1 ids below the threshold ends the loop at once: the run returns True with the data
  directory as step 1 left it, the steps recorded so far kept and extended by those of
  step 1, and nothing called in this iteration but, at most, the trainer of step 1 and
  the count. And in every run from the start, a count below the threshold is the last
  event of the run, in its last iteration, which called neither retrieval nor fusion.
  With frontier counts 200, 80, 40, threshold 50 and at most 3 iterations, the run ends
  after the count of iteration 3, having called retrieval and fusion in iterations 1 and
  2 only, and returns the alignments of those two.
\<close>

theorem threshold_stops_loop:
  fixes env :: "'w stages" and st :: "'w run_state" and w1 w :: 'w
    and skip_s4 :: bool and max_iterations min_kg1_entities i :: int and n :: nat
    and success1 :: "string list" and called1 :: "event list"
  defines "kg1_count \<equiv> count_unique_kg1_entities (read_frontier env w1)"
  defines "result \<equiv> run_pipeline_loop env skip_s4 max_iterations min_kg1_entities w"
  shows
    "(iteration st < max_iterations
        \<and> s4_step env skip_s4 (iteration st + 1) (world st) = (True, w1, success1, called1)
        \<and> int kg1_count < min_kg1_entities \<longrightarrow>
          pipeline_loop env skip_s4 max_iterations min_kg1_entities st =
            (True, \<lparr>iteration = iteration st + 1, world = w1,
                    all_success_steps = all_success_steps st @ success1,
                    calls = calls st @ called1 @ [Count_Check (iteration st + 1) kg1_count]\<rparr>)
          \<and> set called1 \<subseteq> {S4_Training (iteration st + 1)})
     \<and> (Count_Check i n \<in> set (calls (snd result)) \<and> int n < min_kg1_entities \<longrightarrow>
          fst result \<and> iteration (snd result) = i
          \<and> S4_To_Retrieval i \<notin> set (calls (snd result)) \<and> Fusion i \<notin> set (calls (snd result))
          \<and> last (calls (snd result)) = Count_Check i n)
     \<and> run_pipeline_loop demo_stages False 3 50 \<lparr>frontier_size = 200, supervision = []\<rparr> =
         (True,
          \<lparr>iteration = 3,
           world = \<lparr>frontier_size = 40,
                    supervision = map (\<lambda>k. (int k, int k + 5000)) [81 ..< 201]
                                  @ map (\<lambda>k. (int k, int k + 5000)) [41 ..< 81]\<rparr>,
           all_success_steps = [''S4 Training'', ''S4 to Retrieval'', ''Multi-Scale Fusion'',
                                ''S4 (already exists)'', ''S4 to Retrieval'', ''Multi-Scale Fusion'',
                                ''S4 (already exists)''],
           calls = [S4_Training 1, Count_Check 1 200, S4_To_Retrieval 1, Fusion 1,
                    Count_Check 2 80, S4_To_Retrieval 2, Fusion 2,
                    Count_Check 3 40]\<rparr>)"
proof -
  have a: "pipeline_loop env skip_s4 max_iterations min_kg1_entities st =
            (True, \<lparr>iteration = iteration st + 1, world = w1,
                    all_success_steps = all_success_steps st @ success1,
                    calls = calls st @ called1 @ [Count_Check (iteration st + 1) kg1_count]\<rparr>)
          \<and> set called1 \<subseteq> {S4_Training (iteration st + 1)}"
    if lt: "iteration st < max_iterations"
      and s4: "s4_step env skip_s4 (iteration st + 1) (world st) = (True, w1, success1, called1)"
      and low: "int kg1_count < min_kg1_entities"
  proof -
    have "run_iteration env skip_s4 max_iterations min_kg1_entities st =
        Return True \<lparr>iteration = iteration st + 1, world = w1,
                     all_success_steps = all_success_steps st @ success1,
                     calls = calls st @ called1 @ [Count_Check (iteration st + 1) kg1_count]\<rparr>"
      unfolding kg1_count_def using s4 low [unfolded kg1_count_def] by (rule run_iteration_stop)
    then have "pipeline_loop env skip_s4 max_iterations min_kg1_entities st =
            (True, \<lparr>iteration = iteration st + 1, world = w1,
                    all_success_steps = all_success_steps st @ success1,
                    calls = calls st @ called1 @ [Count_Check (iteration st + 1) kg1_count]\<rparr>)"
      using lt by (simp add: pipeline_loop.simps)
    moreover have "set called1 \<subseteq> {S4_Training (iteration st + 1)}"
      using s4_step_called [OF s4] by auto
    ultimately show ?thesis by simp
  qed
  have "stopped_ok min_kg1_entities result"
    unfolding result_def run_pipeline_loop_def
    by (rule pipeline_loop_stopped_ok [OF initial_calls_inv])
  then have b: "Count_Check i n \<in> set (calls (snd result)) \<and> int n < min_kg1_entities \<longrightarrow>
          fst result \<and> iteration (snd result) = i
          \<and> S4_To_Retrieval i \<notin> set (calls (snd result)) \<and> Fusion i \<notin> set (calls (snd result))
          \<and> last (calls (snd result)) = Count_Check i n"
    unfolding stopped_ok_def by blast
  from a have a': "iteration st < max_iterations
        \<and> s4_step env skip_s4 (iteration st + 1) (world st) = (True, w1, success1, called1)
        \<and> int kg1_count < min_kg1_entities \<longrightarrow>
          pipeline_loop env skip_s4 max_iterations min_kg1_entities st =
            (True, \<lparr>iteration = iteration st + 1, world = w1,
                    all_success_steps = all_success_steps st @ success1,
                    calls = calls st @ called1 @ [Count_Check (iteration st + 1) kg1_count]\<rparr>)
          \<and> set called1 \<subseteq> {S4_Training (iteration st + 1)}"
    by blast
  show ?thesis
    by (rule conjI [OF a' conjI [OF b demo_run]])
qed

text \<open>
  The theorem at the state after two iterations, and at the whole run on counts 200, 80,
  40 for the count of iteration 3.
\<close>

theorem threshold_stops_loop_witness:
  "pipeline_loop demo_stages False 3 50
       \<lparr>iteration = 2, world = \<lparr>frontier_size = 40, supervision = [(81, 5081)]\<rparr>,
        all_success_steps = [''S4 Training''], calls = [Count_Check 2 80, Fusion 2]\<rparr>
     = (True, \<lparr>iteration = 3, world = \<lparr>frontier_size = 40, supervision = [(81, 5081)]\<rparr>,
               all_success_steps = [''S4 Training'', ''S4 (already exists)''],
               calls = [Count_Check 2 80, Fusion 2, Count_Check 3 40]\<rparr>)
   \<and> fst (run_pipeline_loop demo_stages False 3 50 \<lparr>frontier_size = 200, supervision = []\<rparr>)
   \<and> iteration (snd (run_pipeline_loop demo_stages False 3 50 \<lparr>frontier_size = 200, supervision = []\<rparr>)) = 3
   \<and> S4_To_Retrieval 3 \<notin> set (calls (snd (run_pipeline_loop demo_stages False 3 50 \<lparr>frontier_size = 200, supervision = []\<rparr>)))
   \<and> Fusion 3 \<notin> set (calls (snd (run_pipeline_loop demo_stages False 3 50 \<lparr>frontier_size = 200, supervision = []\<rparr>)))"
proof -
  let ?w = "\<lparr>frontier_size = 40, supervision = [(81, 5081)]\<rparr>"
  let ?st = "\<lparr>iteration = 2, world = ?w, all_success_steps = [''S4 Training''],
              calls = [Count_Check 2 80, Fusion 2]\<rparr>"
  let ?initial = "\<lparr>frontier_size = 200, supervision = []\<rparr>"
  note t = threshold_stops_loop [where st = ?st and max_iterations = 3 and env = demo_stages
      and ?skip_s4.0 = False and ?w1.0 = ?w and ?success1.0 = "[''S4 (already exists)'']"
      and ?called1.0 = "[]" and min_kg1_entities = 50 and i = 3 and n = 40 and w = ?initial]
  have h1: "iteration ?st < 3" by simp
  have h2: "s4_step demo_stages False (iteration ?st + 1) (world ?st)
      = (True, ?w, [''S4 (already exists)''], [])"
    by (simp add: s4_step_def demo_stages_def check_demo_frontier)
  have h3: "int (count_unique_kg1_entities (read_frontier demo_stages ?w)) < 50"
    by (simp add: demo_stages_def count_demo_frontier)
  have cnt: "count_unique_kg1_entities (read_frontier demo_stages ?w) = 40"
    by (simp add: demo_stages_def count_demo_frontier)
  have a: "pipeline_loop demo_stages False 3 50 ?st
     = (True, \<lparr>iteration = 3, world = ?w,
               all_success_steps = [''S4 Training'', ''S4 (already exists)''],
               calls = [Count_Check 2 80, Fusion 2, Count_Check 3 40]\<rparr>)"
    using t [THEN conjunct1, THEN mp, OF conjI [OF h1 conjI [OF h2 h3]], THEN conjunct1]
    by (simp add: cnt)
  have run: "calls (snd (run_pipeline_loop demo_stages False 3 50 ?initial))
      = [S4_Training 1, Count_Check 1 200, S4_To_Retrieval 1, Fusion 1,
         Count_Check 2 80, S4_To_Retrieval 2, Fusion 2, Count_Check 3 40]"
    using t [THEN conjunct2, THEN conjunct2] by simp
  have h4: "Count_Check 3 40 \<in> set (calls (snd (run_pipeline_loop demo_stages False 3 50 ?initial)))
      \<and> int 40 < 50"
    by (simp add: run)
  note b = t [THEN conjunct2, THEN conjunct1, THEN mp, OF h4]
  show ?thesis
    using a b by blast
qed

section \<open>Properties of the sequence similarity\<close>

text \<open>
  The matched elements of all windows still to search are at most what the windows can
  hold; and when they fill windows that have equal lengths on both sides, the two
  sequences agree on every such window. So two different sequences always have a
  ratio below 1.
\<close>

lemma blocks_loop_step:
  "blocks_loop a b (w # queue) acc =
     (if match_size (longest_in a b w) \<noteq> 0
      then blocks_loop a b (pushed w (longest_in a b w) @ queue) (acc @ [longest_in a b w])
      else blocks_loop a b queue acc)"
  by (rule blocks_loop.simps(2))

lemma weight_pop: "sum_list (map window_weight queue) < sum_list (map window_weight (w # queue))"
  by (simp add: window_weight_def split: prod.splits)

lemma weight_push:
  "match_size (longest_in a b w) \<noteq> 0 \<Longrightarrow>
     sum_list (map window_weight (pushed w (longest_in a b w) @ queue))
       < sum_list (map window_weight (w # queue))"
  using pushed_weight [of a b w] by simp

lemma blocks_loop_acc: "blocks_loop a b q acc = acc @ blocks_loop a b q []"
proof (induction "sum_list (map window_weight q)" arbitrary: q acc rule: less_induct)
  case less
  show ?case
  proof (cases q)
    case Nil
    then show ?thesis by simp
  next
    case (Cons w queue)
    show ?thesis
    proof (cases "match_size (longest_in a b w) \<noteq> 0")
      case True
      let ?q = "pushed w (longest_in a b w) @ queue"
      have lt: "sum_list (map window_weight ?q) < sum_list (map window_weight q)"
        unfolding Cons by (rule weight_push [OF True])
      have "blocks_loop a b ?q (acc @ [longest_in a b w])
          = (acc @ [longest_in a b w]) @ blocks_loop a b ?q []"
        by (rule less [OF lt])
      moreover have "blocks_loop a b ?q ([] @ [longest_in a b w])
          = ([] @ [longest_in a b w]) @ blocks_loop a b ?q []"
        by (rule less [OF lt])
      ultimately show ?thesis
        unfolding Cons using True by (simp add: blocks_loop_step)
    next
      case False
      have lt: "sum_list (map window_weight queue) < sum_list (map window_weight q)"
        unfolding Cons by (rule weight_pop)
      show ?thesis
        unfolding Cons using False less [OF lt, of acc] by (simp add: blocks_loop_step)
    qed
  qed
qed

lemma total_Nil: "total a b [] = 0"
  by (simp add: total_def)

lemma total_Cons:
  "total a b (w # queue) =
     (if match_size (longest_in a b w) \<noteq> 0
      then match_size (longest_in a b w) + total a b (pushed w (longest_in a b w) @ queue)
      else total a b queue)"
proof (cases "match_size (longest_in a b w) \<noteq> 0")
  case True
  have "blocks_loop a b (w # queue) []
      = [longest_in a b w] @ blocks_loop a b (pushed w (longest_in a b w) @ queue) []"
    using True blocks_loop_acc [of a b "pushed w (longest_in a b w) @ queue" "[longest_in a b w]"]
    by (simp add: blocks_loop_step)
  then show ?thesis using True by (simp add: total_def)
next
  case False
  then show ?thesis by (simp add: total_def blocks_loop_step)
qed

lemma longest_in_ok:
  "best_ok a b alo ahi blo bhi (longest_in a b (alo, ahi, blo, bhi))"
  by (simp add: longest_in_def find_longest_match_ok)

lemma pushed_cap:
  assumes "match_size (longest_in a b w) \<noteq> 0"
  shows "match_size (longest_in a b w) + sum_list (map window_cap (pushed w (longest_in a b w)))
           \<le> window_cap w"
proof -
  obtain alo ahi blo bhi where w: "w = (alo, ahi, blo, bhi)" by (cases w) auto
  obtain i j k where x: "longest_in a b w = (i, j, k)" by (cases "longest_in a b w") auto
  have k: "k \<noteq> 0" using assms x by (simp add: match_size_def)
  have "best_ok a b alo ahi blo bhi (i, j, k)" using longest_in_ok [of a b alo ahi blo bhi] w x by simp
  then have "alo \<le> i" "i + k \<le> ahi" "blo \<le> j" "j + k \<le> bhi"
    using k by (auto simp: best_ok_def)
  then show ?thesis
    unfolding w x [unfolded w] by (auto simp: pushed_def window_cap_def match_size_def)
qed

lemma total_le_cap: "total a b q \<le> sum_list (map window_cap q)"
proof (induction "sum_list (map window_weight q)" arbitrary: q rule: less_induct)
  case less
  show ?case
  proof (cases q)
    case Nil
    then show ?thesis by (simp add: total_Nil)
  next
    case (Cons w queue)
    show ?thesis
    proof (cases "match_size (longest_in a b w) \<noteq> 0")
      case True
      let ?q = "pushed w (longest_in a b w) @ queue"
      have lt: "sum_list (map window_weight ?q) < sum_list (map window_weight q)"
        unfolding Cons by (rule weight_push [OF True])
      have "total a b ?q \<le> sum_list (map window_cap ?q)" by (rule less [OF lt])
      then show ?thesis
        unfolding Cons using True pushed_cap [OF True] by (simp add: total_Cons)
    next
      case False
      have lt: "sum_list (map window_weight queue) < sum_list (map window_weight q)"
        unfolding Cons by (rule weight_pop)
      have "total a b queue \<le> sum_list (map window_cap queue)" by (rule less [OF lt])
      then show ?thesis unfolding Cons using False by (simp add: total_Cons)
    qed
  qed
qed


lemma slice_split:
  "lo \<le> mid \<Longrightarrow> mid \<le> hi \<Longrightarrow> slice xs lo hi = slice xs lo mid @ slice xs mid hi"
proof -
  assume a: "lo \<le> mid" "mid \<le> hi"
  then have "hi - lo = (mid - lo) + (hi - mid)" by simp
  then have "take (hi - lo) (drop lo xs)
      = take (mid - lo) (drop lo xs) @ take (hi - mid) (drop (mid - lo) (drop lo xs))"
    by (simp only: take_add)
  moreover have "drop (mid - lo) (drop lo xs) = drop mid xs" using a by simp
  ultimately show ?thesis by (simp add: slice_def)
qed

lemma slice_match:
  assumes "i + k \<le> length a" "j + k \<le> length b" "\<forall>t < k. a ! (i + t) = b ! (j + t)"
  shows "slice a i (i + k) = slice b j (j + k)"
proof (rule nth_equalityI)
  show "length (slice a i (i + k)) = length (slice b j (j + k))"
    using assms by (simp add: slice_def)
next
  fix t assume "t < length (slice a i (i + k))"
  then have t: "t < k" using assms by (simp add: slice_def)
  then show "slice a i (i + k) ! t = slice b j (j + k) ! t"
    using assms by (simp add: slice_def)
qed

lemma slice_whole: "slice xs 0 (length xs) = xs"
  by (simp add: slice_def)

lemma square_split:
  assumes b: "alo \<le> i" "i + k \<le> ahi" "blo \<le> j" "j + k \<le> bhi"
    and sq: "ahi - alo = bhi - blo"
    and eq: "k + sum_list (map window_cap (pushed (alo, ahi, blo, bhi) (i, j, k)))
               = min (ahi - alo) (bhi - blo)"
  shows "i - alo = j - blo"
  using b sq eq by (auto simp: pushed_def window_cap_def min_def split: if_splits)

lemma total_eq_cap_same:
  assumes "\<forall>w \<in> set q. window_square a b w"
    and "total a b q = sum_list (map window_cap q)"
  shows "\<forall>w \<in> set q. window_same a b w"
  using assms
proof (induction "sum_list (map window_weight q)" arbitrary: q rule: less_induct)
  case less
  show ?case
  proof (cases q)
    case Nil
    then show ?thesis by simp
  next
    case (Cons w queue)
    obtain alo ahi blo bhi where w: "w = (alo, ahi, blo, bhi)" by (cases w) auto
    have sqw: "alo \<le> ahi" "ahi \<le> length a" "blo \<le> bhi" "bhi \<le> length b"
      "ahi - alo = bhi - blo"
      using less.prems(1) Cons w by (auto simp: window_square_def)
    have sqq: "\<forall>w \<in> set queue. window_square a b w" using less.prems(1) Cons by simp
    show ?thesis
    proof (cases "match_size (longest_in a b w) \<noteq> 0")
      case False
      have lt: "sum_list (map window_weight queue) < sum_list (map window_weight q)"
        unfolding Cons by (rule weight_pop)
      have t: "total a b queue = window_cap w + sum_list (map window_cap queue)"
        using less.prems(2) False unfolding Cons by (simp add: total_Cons)
      have "total a b queue \<le> sum_list (map window_cap queue)" by (rule total_le_cap)
      with t have c0: "window_cap w = 0" and tq: "total a b queue = sum_list (map window_cap queue)"
        by simp_all
      have "ahi - alo = 0" using c0 sqw by (simp add: window_cap_def w)
      then have "window_same a b w" using sqw by (simp add: window_same_def w slice_def)
      moreover have "\<forall>w \<in> set queue. window_same a b w" by (rule less.hyps [OF lt sqq tq])
      ultimately show ?thesis unfolding Cons by simp
    next
      case True
      obtain i j k where x: "longest_in a b w = (i, j, k)" by (cases "longest_in a b w") auto
      have k: "k \<noteq> 0" using True x by (simp add: match_size_def)
      have ok: "best_ok a b alo ahi blo bhi (i, j, k)"
        using longest_in_ok [of a b alo ahi blo bhi] w x by simp
      then have bd: "alo \<le> i" "i + k \<le> ahi" "blo \<le> j" "j + k \<le> bhi"
        and mt: "\<forall>t < k. a ! (i + t) = b ! (j + t)"
        using k by (auto simp: best_ok_def)
      let ?p = "pushed w (longest_in a b w)"
      let ?q = "?p @ queue"
      have px: "?p = pushed (alo, ahi, blo, bhi) (i, j, k)" using x w by simp
      have lt: "sum_list (map window_weight ?q) < sum_list (map window_weight q)"
        unfolding Cons by (rule weight_push [OF True])
      have t: "k + total a b ?q = window_cap w + sum_list (map window_cap queue)"
        using less.prems(2) True x unfolding Cons by (simp add: total_Cons match_size_def)
      have le1: "total a b ?q \<le> sum_list (map window_cap ?p) + sum_list (map window_cap queue)"
        using total_le_cap [of a b ?q] by simp
      have le2: "k + sum_list (map window_cap ?p) \<le> window_cap w"
        using pushed_cap [OF True] x by (simp add: match_size_def)
      from t le1 le2 have tq: "total a b ?q = sum_list (map window_cap ?q)"
        and pc: "k + sum_list (map window_cap ?p) = window_cap w"
        by simp_all
      have pc': "k + sum_list (map window_cap (pushed (alo, ahi, blo, bhi) (i, j, k)))
          = min (ahi - alo) (bhi - blo)"
      proof -
        have wc: "window_cap w = min (ahi - alo) (bhi - blo)" by (simp add: w window_cap_def)
        show ?thesis using pc unfolding wc px .
      qed
      have ij: "i - alo = j - blo" by (rule square_split [OF bd sqw(5) pc'])
      have right_len: "ahi - (i + k) = bhi - (j + k)" using ij bd sqw by linarith
      have sqp: "\<forall>w' \<in> set ?p. window_square a b w'"
        unfolding px using bd sqw ij right_len
        by (auto simp: pushed_def window_square_def split: if_splits)
      have sq': "\<forall>w' \<in> set ?q. window_square a b w'" using sqp sqq by auto
      have same: "\<forall>w' \<in> set ?q. window_same a b w'" by (rule less.hyps [OF lt sq' tq])
      have left: "slice a alo i = slice b blo j"
      proof (cases "alo < i")
        case True
        then have "blo < j" using ij bd by linarith
        then have "(alo, i, blo, j) \<in> set ?p" using True unfolding px by (simp add: pushed_def)
        then show ?thesis using same by (fastforce simp: window_same_def)
      next
        case False
        then have "i = alo" "j = blo" using ij bd by linarith+
        then show ?thesis by (simp add: slice_def)
      qed
      have right: "slice a (i + k) ahi = slice b (j + k) bhi"
      proof (cases "i + k < ahi")
        case True
        then have "j + k < bhi" using right_len bd by linarith
        then have "(i + k, ahi, j + k, bhi) \<in> set ?p"
          using True unfolding px by (simp add: pushed_def)
        then show ?thesis using same by (fastforce simp: window_same_def)
      next
        case False
        then have "i + k = ahi" "j + k = bhi" using right_len bd by linarith+
        then show ?thesis by (simp add: slice_def)
      qed
      have mid: "slice a i (i + k) = slice b j (j + k)"
        using bd sqw mt by (intro slice_match) auto
      have sa: "slice a alo ahi = slice a alo i @ slice a i (i + k) @ slice a (i + k) ahi"
        using bd slice_split [of alo i ahi a] slice_split [of i "i + k" ahi a] by simp
      have sb: "slice b blo bhi = slice b blo j @ slice b j (j + k) @ slice b (j + k) bhi"
        using bd slice_split [of blo j bhi b] slice_split [of j "j + k" bhi b] by simp
      have "window_same a b w"
        unfolding w window_same_def using sa sb left mid right by simp
      moreover have "\<forall>w' \<in> set queue. window_same a b w'" using same by simp
      ultimately show ?thesis unfolding Cons by simp
    qed
  qed
qed

lemma matches_le: "matches a b \<le> min (length a) (length b)"
  using total_le_cap [of a b "[(0, length a, 0, length b)]"]
  by (simp add: matches_def get_matching_blocks_def total_def window_cap_def)

lemma matches_lt:
  assumes "a \<noteq> b"
  shows "2 * matches a b < length a + length b"
proof (cases "length a = length b")
  case False
  then show ?thesis using matches_le [of a b] by (auto simp: min_def split: if_splits)
next
  case True
  have "matches a b \<noteq> length a"
  proof
    assume m: "matches a b = length a"
    let ?q = "[(0, length a, 0, length b)]"
    have sq: "\<forall>w \<in> set ?q. window_square a b w" using True by (simp add: window_square_def)
    have tq: "total a b ?q = sum_list (map window_cap ?q)"
      using m True by (simp add: matches_def get_matching_blocks_def total_def window_cap_def)
    from total_eq_cap_same [OF sq tq] have "slice a 0 (length a) = slice b 0 (length b)"
      by (simp add: window_same_def)
    then show False using assms by (simp add: slice_whole)
  qed
  then show ?thesis using matches_le [of a b] True by simp
qed

lemma sequence_ratio_bounds: "0 \<le> sequence_ratio a b \<and> sequence_ratio a b \<le> 1"
proof (cases "length a + length b = 0")
  case True
  then show ?thesis by (simp add: sequence_ratio_def calculate_ratio_def)
next
  case False
  define len where "len = real (length a + length b)"
  have "0 < length a + length b" using False by simp
  then have pos: "0 < len" unfolding len_def by (simp only: of_nat_0_less_iff)
  have "2 * matches a b \<le> length a + length b"
    using matches_le [of a b] by (simp add: min_def split: if_splits)
  then have "2 * real (matches a b) \<le> len"
    unfolding len_def by (metis of_nat_le_iff of_nat_mult of_nat_numeral)
  then have "2 * real (matches a b) / len \<le> 1" using pos by (simp add: divide_le_eq_1_pos)
  moreover have "0 \<le> 2 * real (matches a b) / len" using pos by simp
  moreover have "sequence_ratio a b = 2 * real (matches a b) / len"
    using False by (simp add: sequence_ratio_def calculate_ratio_def len_def)
  ultimately show ?thesis by simp
qed

lemma sequence_ratio_lt_1:
  assumes "a \<noteq> b"
  shows "sequence_ratio a b < 1"
proof -
  have pos: "0 < length a + length b" using assms by (cases a; cases b) auto
  define len where "len = real (length a + length b)"
  have lpos: "0 < len" using pos unfolding len_def by (simp only: of_nat_0_less_iff)
  have "2 * real (matches a b) < len"
    unfolding len_def using matches_lt [OF assms]
    by (metis of_nat_less_iff of_nat_mult of_nat_numeral)
  then have "2 * real (matches a b) / len < 1" using lpos by (simp add: divide_less_eq_1_pos)
  moreover have "sequence_ratio a b = 2 * real (matches a b) / len"
    using pos by (simp add: sequence_ratio_def calculate_ratio_def len_def)
  ultimately show ?thesis by simp
qed

section \<open>Properties of the text similarity\<close>

text \<open>The names used below, evaluated.\<close>

lemma lower_idem_samples:
  "lower ''tide'' = ''tide''" "lower ''diet'' = ''diet''" "lower ''of'' = ''of''"
  "lower ''off'' = ''off''" "lower ''member of'' = ''member of''"
  "lower ''is member'' = ''is member''" "lower ''Member Of'' = ''member of''"
  "lower ''xyz'' = ''xyz''"
  by (simp_all add: lower_def lower_char_def)

lemma matches_samples:
  "matches ''tide'' ''diet'' = 1" "matches ''diet'' ''tide'' = 2"
  "matches ''of'' ''off'' = 2" "matches ''off'' ''of'' = 2"
  "matches ''member of'' ''is member'' = 6" "matches ''member of'' ''xyz'' = 0"
  by code_simp+

lemma words_samples:
  "words_of ''tide'' = {''tide''}" "words_of ''diet'' = {''diet''}"
  "words_of ''of'' = {}" "words_of ''off'' = {''off''}"
  "words_of ''member of'' = {''member''}" "words_of ''is member'' = {''is'', ''member''}"
  "words_of ''xyz'' = {''xyz''}"
  by (auto simp: words_of_def str_split_def is_space_def stopwords_def)

lemma ratio_samples:
  "sequence_ratio ''tide'' ''diet'' = 1 / 4" "sequence_ratio ''diet'' ''tide'' = 1 / 2"
  "sequence_ratio ''of'' ''off'' = 4 / 5" "sequence_ratio ''off'' ''of'' = 4 / 5"
  "sequence_ratio ''member of'' ''is member'' = 2 / 3" "sequence_ratio ''member of'' ''xyz'' = 0"
  by (simp_all add: sequence_ratio_def calculate_ratio_def matches_samples)

lemma overlap_samples:
  "word_overlap {''tide''} {''diet''} = 0" "word_overlap {''diet''} {''tide''} = 0"
  "word_overlap {''member''} {''is'', ''member''} = 1 / 2"
  "word_overlap {''member''} {''xyz''} = 0"
  by (simp_all add: word_overlap_def)

lemma text_similarity_samples:
  "text_similarity ''tide'' ''diet'' = 3 / 20" "text_similarity ''diet'' ''tide'' = 3 / 10"
  "text_similarity ''of'' ''off'' = 4 / 5" "text_similarity ''off'' ''of'' = 4 / 5"
  "text_similarity ''member of'' ''is member'' = 3 / 5"
  "text_similarity ''Member Of'' ''member of'' = 1"
  "text_similarity ''member of'' ''xyz'' = 0"
  by (simp_all add: text_similarity_def lower_idem_samples ratio_samples words_samples
      overlap_samples Let_def)

lemma finite_words_of: "finite (words_of s)"
  by (simp add: words_of_def)

lemma word_overlap_bounds: "finite w1 \<Longrightarrow> finite w2 \<Longrightarrow> 0 \<le> word_overlap w1 w2 \<and> word_overlap w1 w2 \<le> 1"
proof -
  assume f: "finite w1" "finite w2"
  show ?thesis
  proof (cases "w1 \<union> w2 = {}")
    case True
    then show ?thesis by (simp add: word_overlap_def)
  next
    case False
    have "card (w1 \<inter> w2) \<le> card (w1 \<union> w2)"
      using f by (intro card_mono) auto
    moreover have "0 < card (w1 \<union> w2)" using False f by (simp add: card_gt_0_iff)
    ultimately show ?thesis
      using False by (simp add: word_overlap_def divide_le_eq_1_pos)
  qed
qed

lemma word_overlap_commute: "word_overlap w1 w2 = word_overlap w2 w1"
  by (simp add: word_overlap_def Int_commute Un_commute)

lemma text_similarity_cases:
  "text_similarity name1 name2 =
     (if lower name1 = lower name2 then 1
      else if words_of (lower name1) \<noteq> {} \<and> words_of (lower name2) \<noteq> {}
      then 0.6 * sequence_ratio (lower name1) (lower name2)
           + 0.4 * word_overlap (words_of (lower name1)) (words_of (lower name2))
      else sequence_ratio (lower name1) (lower name2))"
  by (simp add: text_similarity_def Let_def)

lemma text_similarity_lt_1:
  assumes "lower name1 \<noteq> lower name2"
  shows "0 \<le> text_similarity name1 name2 \<and> text_similarity name1 name2 < 1"
proof -
  let ?r = "sequence_ratio (lower name1) (lower name2)"
  let ?j = "word_overlap (words_of (lower name1)) (words_of (lower name2))"
  have r: "0 \<le> ?r" "?r < 1"
    using sequence_ratio_bounds [of "lower name1" "lower name2"] sequence_ratio_lt_1 [OF assms]
    by simp_all
  have j: "0 \<le> ?j" "?j \<le> 1"
    using word_overlap_bounds [OF finite_words_of finite_words_of] by simp_all
  have "0 \<le> 0.6 * ?r + 0.4 * ?j" using r j by simp
  moreover have "0.6 * ?r + 0.4 * ?j < 1" using r j by simp
  ultimately show ?thesis using assms r by (simp add: text_similarity_cases)
qed

text \<open>
  Claim C9, as the code has it. The text similarity of two names is 1 exactly when their
  lower-cased forms are identical, and it lies between 0 and 1. It is the same in both
  argument orders whenever the library's sequence similarity of the two lower-cased
  names is; the word-overlap part and the equality test are symmetric.
\<close>

theorem text_similarity_one_iff:
  "(text_similarity name1 name2 = 1 \<longleftrightarrow> lower name1 = lower name2)
   \<and> (sequence_ratio (lower name1) (lower name2) = sequence_ratio (lower name2) (lower name1)
        \<longrightarrow> text_similarity name1 name2 = text_similarity name2 name1)
   \<and> 0 \<le> text_similarity name1 name2 \<and> text_similarity name1 name2 \<le> 1"
proof -
  have a: "text_similarity name1 name2 = 1 \<longleftrightarrow> lower name1 = lower name2"
  proof
    assume "text_similarity name1 name2 = 1"
    then show "lower name1 = lower name2"
      using text_similarity_lt_1 [of name1 name2] by fastforce
  next
    assume "lower name1 = lower name2"
    then show "text_similarity name1 name2 = 1" by (simp add: text_similarity_cases)
  qed
  have b: "sequence_ratio (lower name1) (lower name2) = sequence_ratio (lower name2) (lower name1)
        \<longrightarrow> text_similarity name1 name2 = text_similarity name2 name1"
    using word_overlap_commute [of "words_of (lower name1)" "words_of (lower name2)"]
    by (auto simp: text_similarity_cases)
  have c: "0 \<le> text_similarity name1 name2 \<and> text_similarity name1 name2 \<le> 1"
  proof (cases "lower name1 = lower name2")
    case True
    then show ?thesis by (simp add: text_similarity_cases)
  next
    case False
    then show ?thesis using text_similarity_lt_1 [OF False] by simp
  qed
  show ?thesis using a b c by blast
qed

text \<open>
  The theorem at two names equal up to case, at two different names, and at a pair whose
  sequence similarity is the same in both orders.
\<close>

theorem text_similarity_one_iff_witness:
  "text_similarity ''Member Of'' ''member of'' = 1
   \<and> lower ''Member Of'' = lower ''member of''
   \<and> text_similarity ''member of'' ''is member'' \<noteq> 1
   \<and> sequence_ratio (lower ''of'') (lower ''off'') = sequence_ratio (lower ''off'') (lower ''of'')
   \<and> text_similarity ''of'' ''off'' = text_similarity ''off'' ''of''"
proof -
  have l: "lower ''Member Of'' = lower ''member of''" by (simp add: lower_idem_samples)
  have n: "lower ''member of'' \<noteq> lower ''is member''" by (simp add: lower_idem_samples)
  have r: "sequence_ratio (lower ''of'') (lower ''off'') = sequence_ratio (lower ''off'') (lower ''of'')"
    by (simp add: lower_idem_samples ratio_samples)
  have a: "text_similarity ''Member Of'' ''member of'' = 1"
    using text_similarity_one_iff [of "''Member Of''" "''member of''", THEN conjunct1] l
    by (rule iffD2)
  have b: "text_similarity ''member of'' ''is member'' \<noteq> 1"
  proof
    assume "text_similarity ''member of'' ''is member'' = 1"
    with text_similarity_one_iff [of "''member of''" "''is member''", THEN conjunct1]
    have "lower ''member of'' = lower ''is member''" by (rule iffD1)
    with n show False by (rule notE)
  qed
  have c: "text_similarity ''of'' ''off'' = text_similarity ''off'' ''of''"
    by (rule text_similarity_one_iff [of "''of''" "''off''", THEN conjunct2, THEN conjunct1,
          THEN mp, OF r])
  show ?thesis
    by (rule conjI [OF a conjI [OF l conjI [OF b conjI [OF r c]]]])
qed

text \<open>
  Claim C9 as stated fails: the library's sequence similarity depends on the order of
  its arguments. For \<open>tide\<close> and \<open>diet\<close> it finds one matching letter in one order and two
  in the other, and the text similarity is 0.15 one way and 0.3 the other.
\<close>

theorem text_similarity_not_symmetric:
  "text_similarity ''tide'' ''diet'' = 3 / 20
   \<and> text_similarity ''diet'' ''tide'' = 3 / 10
   \<and> text_similarity ''tide'' ''diet'' \<noteq> text_similarity ''diet'' ''tide''"
  by (simp add: text_similarity_samples)

section \<open>Properties of the text method of relation alignment\<close>

lemma merge_alignment_subset: "set (merge_alignment acc x) \<subseteq> insert x (set acc)"
  by (induction acc) auto

lemma foldl_merge_subset: "set (foldl merge_alignment acc xs) \<subseteq> set acc \<union> set xs"
proof (induction xs arbitrary: acc)
  case Nil
  show ?case by simp
next
  case (Cons x xs)
  have "set (foldl merge_alignment (merge_alignment acc x) xs)
      \<subseteq> set (merge_alignment acc x) \<union> set xs" by (rule Cons.IH)
  then show ?case using merge_alignment_subset [of acc x] by auto
qed

lemma set_sort_by_score: "set (sort_by_score xs) = set xs"
  by (simp add: sort_by_score_def)

lemma text_candidates_member:
  assumes "x \<in> set (text_candidates kg1 kg2 th)"
  shows "th \<le> score x \<and> method_of x = Text_Similarity
     \<and> (\<exists>r1 \<in> set kg1. \<exists>r2 \<in> set kg2.
           x = (fst r1, fst r2, text_similarity (snd r1) (snd r2), Text_Similarity))"
  using assms
  by (auto simp: text_candidates_def Let_def score_def method_of_def split: if_splits)

lemma find_relation_alignments_member:
  assumes "x \<in> set (find_relation_alignments kg1 kg2 cooc th)"
  shows "x \<in> set (text_candidates kg1 kg2 th) \<or> method_of x = Cooccurrence"
proof -
  have ne: "\<not> (kg1 = [] \<or> kg2 = [])"
    using assms by (auto simp: find_relation_alignments_def)
  let ?al = "sort_by_score (text_candidates kg1 kg2 th)
      @ map (\<lambda>c. (fst c, fst (snd c), snd (snd c), Cooccurrence)) cooc"
  have "x \<in> set (foldl merge_alignment [] ?al)"
    using assms ne by (simp add: find_relation_alignments_def Let_def set_sort_by_score)
  then have "x \<in> set ?al" using foldl_merge_subset [of "[]" ?al] by auto
  then show ?thesis by (auto simp: set_sort_by_score method_of_def)
qed

lemma overlap_empty_sample: "word_overlap {} {''off''} = 0"
  by (simp add: word_overlap_def)

lemma alignments_sample:
  "find_relation_alignments [(1, ''member of'')] [(7, ''is member''), (8, ''xyz'')] [] 0.3
     = [(1, 7, 3 / 5, Text_Similarity)]"
  by (simp add: find_relation_alignments_def text_candidates_def text_similarity_samples
      sort_by_score_def Let_def)

text \<open>
  Claim C8, as the code has it. For two names whose lower-cased forms are identical the
  score is 1. Otherwise, when both names keep at least one word after the stop words
  are removed, the score is 0.6 times the sequence similarity of the lower-cased names
  plus 0.4 times the Jaccard similarity of the two word sets; when either name keeps no
  word, the score is the sequence similarity alone. Every alignment in the output of
  \<^verbatim>\<open>find_relation_alignments\<close> that carries the text method has a score at or above the
  threshold and is the text similarity of a KG1 and a KG2 relation name; the default
  threshold is 0.3.
\<close>

theorem text_similarity_formula:
  fixes name1 name2 :: string
  defines "l1 \<equiv> lower name1" and "l2 \<equiv> lower name2"
  defines "words1 \<equiv> words_of (lower name1)" and "words2 \<equiv> words_of (lower name2)"
  shows "(l1 = l2 \<longrightarrow> text_similarity name1 name2 = 1)
    \<and> (l1 \<noteq> l2 \<and> words1 \<noteq> {} \<and> words2 \<noteq> {} \<longrightarrow>
          text_similarity name1 name2
            = 0.6 * sequence_ratio l1 l2
              + 0.4 * (real (card (words1 \<inter> words2)) / real (card (words1 \<union> words2))))
    \<and> (l1 \<noteq> l2 \<and> (words1 = {} \<or> words2 = {}) \<longrightarrow>
          text_similarity name1 name2 = sequence_ratio l1 l2)
    \<and> (\<forall>x \<in> set (find_relation_alignments kg1 kg2 cooc th).
          method_of x = Text_Similarity \<longrightarrow>
            th \<le> score x
            \<and> (\<exists>r1 \<in> set kg1. \<exists>r2 \<in> set kg2.
                  x = (fst r1, fst r2, text_similarity (snd r1) (snd r2), Text_Similarity)))
    \<and> default_text_sim_threshold = 0.3"
proof -
  have a: "l1 = l2 \<longrightarrow> text_similarity name1 name2 = 1"
    by (simp add: text_similarity_cases l1_def l2_def)
  have b: "l1 \<noteq> l2 \<and> words1 \<noteq> {} \<and> words2 \<noteq> {} \<longrightarrow>
          text_similarity name1 name2
            = 0.6 * sequence_ratio l1 l2
              + 0.4 * (real (card (words1 \<inter> words2)) / real (card (words1 \<union> words2)))"
    by (auto simp: text_similarity_cases l1_def l2_def words1_def words2_def word_overlap_def)
  have c: "l1 \<noteq> l2 \<and> (words1 = {} \<or> words2 = {}) \<longrightarrow>
          text_similarity name1 name2 = sequence_ratio l1 l2"
    by (auto simp: text_similarity_cases l1_def l2_def words1_def words2_def)
  have d: "\<forall>x \<in> set (find_relation_alignments kg1 kg2 cooc th).
          method_of x = Text_Similarity \<longrightarrow>
            th \<le> score x
            \<and> (\<exists>r1 \<in> set kg1. \<exists>r2 \<in> set kg2.
                  x = (fst r1, fst r2, text_similarity (snd r1) (snd r2), Text_Similarity))"
  proof (intro ballI impI)
    fix x assume x: "x \<in> set (find_relation_alignments kg1 kg2 cooc th)"
      and m: "method_of x = Text_Similarity"
    from find_relation_alignments_member [OF x] m
    have "x \<in> set (text_candidates kg1 kg2 th)" by auto
    from text_candidates_member [OF this]
    show "th \<le> score x
        \<and> (\<exists>r1 \<in> set kg1. \<exists>r2 \<in> set kg2.
              x = (fst r1, fst r2, text_similarity (snd r1) (snd r2), Text_Similarity))"
      by blast
  qed
  have e: "default_text_sim_threshold = 0.3" by (simp add: default_text_sim_threshold_def)
  show ?thesis
    by (rule conjI [OF a conjI [OF b conjI [OF c conjI [OF d e]]]])
qed

text \<open>
  The theorem at a pair with words on both sides, a pair with a stop word only on one
  side, a pair equal up to case, and a relation file of one against two names.
\<close>

theorem text_similarity_formula_witness:
  "text_similarity ''member of'' ''is member''
     = 0.6 * sequence_ratio ''member of'' ''is member''
       + 0.4 * (real (card ({''member''} \<inter> {''is'', ''member''}))
                / real (card ({''member''} \<union> {''is'', ''member''})))
   \<and> text_similarity ''of'' ''off'' = sequence_ratio ''of'' ''off''
   \<and> text_similarity ''Member Of'' ''member of'' = 1
   \<and> find_relation_alignments [(1, ''member of'')] [(7, ''is member''), (8, ''xyz'')] [] 0.3
       = [(1, 7, 3 / 5, Text_Similarity)]
   \<and> 0.3 \<le> score (1, 7, 3 / 5, Text_Similarity)"
proof -
  note t1 = text_similarity_formula [where ?name1.0 = "''member of''" and ?name2.0 = "''is member''"
      and ?kg1.0 = "[(1, ''member of'')]" and ?kg2.0 = "[(7, ''is member''), (8, ''xyz'')]"
      and cooc = "[]" and th = "0.3"]
  note t2 = text_similarity_formula [where ?name1.0 = "''of''" and ?name2.0 = "''off''"
      and ?kg1.0 = "[]" and ?kg2.0 = "[]" and cooc = "[]" and th = "0.3"]
  note t3 = text_similarity_formula [where ?name1.0 = "''Member Of''" and ?name2.0 = "''member of''"
      and ?kg1.0 = "[]" and ?kg2.0 = "[]" and cooc = "[]" and th = "0.3"]
  have h1: "lower ''member of'' \<noteq> lower ''is member''
      \<and> words_of (lower ''member of'') \<noteq> {} \<and> words_of (lower ''is member'') \<noteq> {}"
    by (simp add: lower_idem_samples words_samples)
  have h2: "lower ''of'' \<noteq> lower ''off''
      \<and> (words_of (lower ''of'') = {} \<or> words_of (lower ''off'') = {})"
    by (simp add: lower_idem_samples words_samples)
  have h3: "lower ''Member Of'' = lower ''member of''" by (simp add: lower_idem_samples)
  have a: "text_similarity ''member of'' ''is member''
     = 0.6 * sequence_ratio ''member of'' ''is member''
       + 0.4 * (real (card ({''member''} \<inter> {''is'', ''member''}))
                / real (card ({''member''} \<union> {''is'', ''member''})))"
    using t1 [THEN conjunct2, THEN conjunct1, THEN mp, OF h1]
    by (simp only: lower_idem_samples words_samples)
  have b: "text_similarity ''of'' ''off'' = sequence_ratio ''of'' ''off''"
    using t2 [THEN conjunct2, THEN conjunct2, THEN conjunct1, THEN mp, OF h2]
    by (simp only: lower_idem_samples)
  have c: "text_similarity ''Member Of'' ''member of'' = 1"
    by (rule t3 [THEN conjunct1, THEN mp, OF h3])
  have mem: "(1, 7, 3 / 5, Text_Similarity)
      \<in> set (find_relation_alignments [(1, ''member of'')] [(7, ''is member''), (8, ''xyz'')] [] 0.3)"
    by (simp only: alignments_sample list.set(2) insertI1)
  have mt: "method_of (1, 7, 3 / 5, Text_Similarity) = Text_Similarity"
    by (simp add: method_of_def)
  have d: "0.3 \<le> score (1, 7, 3 / 5, Text_Similarity)"
    by (rule t1 [THEN conjunct2, THEN conjunct2, THEN conjunct2, THEN conjunct1, THEN bspec,
          OF mem, THEN mp, OF mt, THEN conjunct1])
  show ?thesis
    by (rule conjI [OF a conjI [OF b conjI [OF c conjI [OF alignments_sample d]]]])
qed

text \<open>
  Claim C8 as stated fails for a name made of stop words only: \<open>of\<close> keeps no word, the
  score of \<open>of\<close> against \<open>off\<close> is the sequence similarity 0.8, and the weighted sum of
  the claim would be 0.48.
\<close>

theorem text_similarity_without_words:
  "words_of (lower ''of'') = {}
   \<and> text_similarity ''of'' ''off'' = 4 / 5
   \<and> 0.6 * sequence_ratio (lower ''of'') (lower ''off'')
       + 0.4 * word_overlap (words_of (lower ''of'')) (words_of (lower ''off'')) = 12 / 25"
  by (simp add: lower_idem_samples words_samples text_similarity_samples ratio_samples
      overlap_empty_sample)

end
